theory Spec2Isabelle
  imports Complex_Main
begin

section \<open>Arrays\<close>

text \<open>
  The program is the notebook \<open>notebooks/psf.ipynb\<close>: it builds a Gaussian kernel with
  \<open>gaussian_kernel_2d\<close> and blurs a spectral datacube with \<open>apply_psf\<close>, which
  convolves every wavelength plane with the kernel through \<open>jax.scipy.signal.convolve2d\<close>.

  A JAX array is a shape together with its entries in row-major order. The entry type is
  left abstract: the floating-point numbers of the program are idealised as the elements
  of a commutative semiring (the reals in particular), so rounding, infinities and NaN
  are not modelled. An array of the program always has as many entries as its shape
  says (\<open>wf_array\<close>).
\<close>

record 'a ndarray =
  shape :: "nat list"
  elems :: "'a list"

definition ndim :: "'a ndarray \<Rightarrow> nat" where
  "ndim A = length (shape A)"

definition asize :: "'a ndarray \<Rightarrow> nat" where
  "asize A = prod_list (shape A)"

definition wf_array :: "'a ndarray \<Rightarrow> bool" where
  "wf_array A \<longleftrightarrow> length (elems A) = asize A"

text \<open>The exceptions the program and the library calls it makes can raise.\<close>

datatype pyerror = IndexError | ValueError | TypeError

text \<open>Row-major tables of two and three axes, built from an index function.\<close>

definition mk2 :: "nat \<Rightarrow> nat \<Rightarrow> (nat \<Rightarrow> nat \<Rightarrow> 'a) \<Rightarrow> 'a list" where
  "mk2 X Y f = map (\<lambda>n. f (n div Y) (n mod Y)) [0..<X * Y]"

definition mk3 :: "nat \<Rightarrow> nat \<Rightarrow> nat \<Rightarrow> (nat \<Rightarrow> nat \<Rightarrow> nat \<Rightarrow> 'a) \<Rightarrow> 'a list" where
  "mk3 X Y C f = map (\<lambda>n. f (n div (Y * C)) ((n div C) mod Y) (n mod C)) [0..<X * Y * C]"

text \<open>Entry \<open>[x, y, c]\<close> of an array of three axes.\<close>

definition at3 :: "'a ndarray \<Rightarrow> nat \<Rightarrow> nat \<Rightarrow> nat \<Rightarrow> 'a" where
  "at3 A x y c = elems A ! ((x * (shape A ! 1) + y) * (shape A ! 2) + c)"

text \<open>
  Entry \<open>[p, q]\<close> of an array of two axes, read as zero outside the array: the view of
  an input that a convolution with zero padding (or with cropping) has.
\<close>

definition at2 :: "'a::zero ndarray \<Rightarrow> int \<Rightarrow> int \<Rightarrow> 'a" where
  "at2 A p q =
     (if 0 \<le> p \<and> p < int (shape A ! 0) \<and> 0 \<le> q \<and> q < int (shape A ! 1)
      then elems A ! (nat p * (shape A ! 1) + nat q) else 0)"

section \<open>The library operations the program calls\<close>

text \<open>
  \<open>datacube[:, :, i]\<close>: the slice at index \<open>i\<close> of the third axis. It is called on
  arrays of at least three axes with \<open>i\<close> in range only.
\<close>

definition index_axis2 :: "'a ndarray \<Rightarrow> nat \<Rightarrow> 'a ndarray" where
  "index_axis2 A i =
     (let s = shape A; X = s ! 0; Y = s ! 1; C = s ! 2; rest = drop 3 s; R = prod_list rest
      in \<lparr>shape = [X, Y] @ rest,
          elems = mk3 X Y R (\<lambda>x y r. elems A ! (((x * Y + y) * C + i) * R + r))\<rparr>)"

text \<open>\<open>jnp.flip\<close> without an axis reverses every axis: the row-major entries in reverse.\<close>

definition jnp_flip :: "'a ndarray \<Rightarrow> 'a ndarray" where
  "jnp_flip A = \<lparr>shape = shape A, elems = rev (elems A)\<rparr>"

text \<open>
  \<open>lax.conv_general_dilated\<close> on one batch and one feature of two spatial axes, strides 1:
  the cross-correlation of the padded left operand with the right one. A negative
  padding crops. Entry \<open>[i, j]\<close> of the result is the sum over the window of the padded
  input at \<open>[i + a, j + b]\<close> times the right operand at \<open>[a, b]\<close>.
\<close>

definition conv_general_dilated ::
  "'a::semiring_0 ndarray \<Rightarrow> 'a ndarray \<Rightarrow> (int \<times> int) list \<Rightarrow> 'a ndarray" where
  "conv_general_dilated lhs rhs padding =
     (let H = shape lhs ! 0; W = shape lhs ! 1; kh = shape rhs ! 0; kw = shape rhs ! 1;
          lo0 = fst (padding ! 0); hi0 = snd (padding ! 0);
          lo1 = fst (padding ! 1); hi1 = snd (padding ! 1);
          oh = nat (int H + lo0 + hi0 - int kh + 1);
          ow = nat (int W + lo1 + hi1 - int kw + 1)
      in \<lparr>shape = [oh, ow],
          elems = mk2 oh ow (\<lambda>i j.
            sum_list (map (\<lambda>a. sum_list (map (\<lambda>b.
              at2 lhs (int i + int a - lo0) (int j + int b - lo1) * at2 rhs (int a) (int b))
              [0..<kw])) [0..<kh]))\<rparr>)"

text \<open>
  \<open>jax.scipy.signal._convolve_nd\<close> with \<open>mode="same"\<close>, the function behind
  \<open>convolve2d\<close>. It raises ValueError when the operands differ in their number of axes
  (\<open>in1.ndim != in2.ndim\<close>), when one of them is empty (\<open>in1.size == 0 or in2.size == 0\<close>:
  zero-size arrays are not supported), and when neither operand is no larger than the
  other in every axis:
  \<^verbatim>\<open>
  no_swap = all(s1 >= s2 for s1, s2 in zip(in1.shape, in2.shape))
  swap = all(s1 <= s2 for s1, s2 in zip(in1.shape, in2.shape))
  if not (no_swap or swap):
    raise ValueError("One input must be smaller than the other in every dimension.")
  shape_o = in2.shape
  if swap:
    in1, in2 = in2, in1
  shape = in2.shape
  in2 = jnp.flip(in2)
  padding = [(s - 1 - (s_o - 1) // 2, s - s_o + (s_o - 1) // 2)
             for (s, s_o) in zip(shape, shape_o)]
  result = lax.conv_general_dilated(in1[None, None], in2[None, None], strides, padding)
  return result[0, 0]
  \<close>
  The larger operand becomes the left one, the smaller one is flipped, and the padding
  is computed from the shape of the original second operand.
\<close>

definition convolve_nd_same :: "'a::semiring_0 ndarray \<Rightarrow> 'a ndarray \<Rightarrow> pyerror + 'a ndarray" where
  "convolve_nd_same in1 in2 =
     (if ndim in1 \<noteq> ndim in2 then Inl ValueError
      else if asize in1 = 0 \<or> asize in2 = 0 then Inl ValueError
      else
        let no_swap = list_all (\<lambda>(s1, s2). s2 \<le> s1) (zip (shape in1) (shape in2));
            swap = list_all (\<lambda>(s1, s2). s1 \<le> s2) (zip (shape in1) (shape in2))
        in if \<not> (no_swap \<or> swap) then Inl ValueError
           else
             let shape_o = shape in2;
                 in1' = (if swap then in2 else in1);
                 in2' = (if swap then in1 else in2);
                 shp = shape in2';
                 flipped = jnp_flip in2';
                 padding = map (\<lambda>(s, s_o).
                     (int s - 1 - (int s_o - 1) div 2, int s - int s_o + (int s_o - 1) div 2))
                   (zip shp shape_o)
             in Inr (conv_general_dilated in1' flipped padding))"

text \<open>
  \<open>jax.scipy.signal.convolve2d(in1, in2, mode="same")\<close>: ValueError unless both
  operands have two axes, then \<open>_convolve_nd\<close>.
\<close>

definition convolve2d :: "'a::semiring_0 ndarray \<Rightarrow> 'a ndarray \<Rightarrow> pyerror + 'a ndarray" where
  "convolve2d in1 in2 =
     (if ndim in1 \<noteq> 2 \<or> ndim in2 \<noteq> 2 then Inl ValueError else convolve_nd_same in1 in2)"

text \<open>
  \<open>jnp.array\<close> of a list of arrays stacks them along a new first axis; the empty list
  gives the empty array of one axis, and arrays of different shapes are refused.
\<close>

definition jnp_array :: "'a ndarray list \<Rightarrow> pyerror + 'a ndarray" where
  "jnp_array planes =
     (if planes = [] then Inr \<lparr>shape = [0], elems = []\<rparr>
      else if list_all (\<lambda>p. shape p = shape (hd planes)) planes
      then Inr \<lparr>shape = length planes # shape (hd planes), elems = concat (map elems planes)\<rparr>
      else Inl ValueError)"

text \<open>
  \<open>jnp.transpose(A, (1, 2, 0))\<close>: on an array of fewer than three axes an axis of the
  permutation is out of bounds (ValueError); on more than three axes the permutation
  is not one of the axes of the array (TypeError); on three axes, entry \<open>[x, y, c]\<close>
  of the result is entry \<open>[c, x, y]\<close> of the argument.
\<close>

definition jnp_transpose_120 :: "'a ndarray \<Rightarrow> pyerror + 'a ndarray" where
  "jnp_transpose_120 A =
     (if ndim A < 3 then Inl ValueError
      else if 3 < ndim A then Inl TypeError
      else let C = shape A ! 0; X = shape A ! 1; Y = shape A ! 2
           in Inr \<lparr>shape = [X, Y, C],
                  elems = mk3 X Y C (\<lambda>x y c. elems A ! ((c * X + x) * Y + y))\<rparr>)"

section \<open>The program\<close>

text \<open>A list comprehension over fallible calls: the first exception ends it.\<close>

fun collect :: "('e + 'b) list \<Rightarrow> 'e + 'b list" where
  "collect [] = Inr []"
| "collect (r # rs) =
     (case r of
        Inl e \<Rightarrow> Inl e
      | Inr v \<Rightarrow> (case collect rs of Inl e \<Rightarrow> Inl e | Inr vs \<Rightarrow> Inr (v # vs)))"

text \<open>
  \<^verbatim>\<open>
  def _convolve_plane(plane, kernel):
      return convolve2d(plane, kernel, mode="same")
  \<close>
\<close>

definition convolve_plane :: "'a::semiring_0 ndarray \<Rightarrow> 'a ndarray \<Rightarrow> pyerror + 'a ndarray" where
  "convolve_plane plane kern = convolve2d plane kern"

text \<open>
  \<^verbatim>\<open>
  def apply_psf(datacube, psf_kernel):
      datacube_dimensions = datacube.shape
      convolved = jnp.array(
          [
              _convolve_plane(datacube[:, :, i], psf_kernel)
              for i in range(datacube_dimensions[2])
          ]
      )
      transposed = jnp.transpose(convolved, (1, 2, 0))  # Reorder to original shape
      return transposed
  \<close>
  Reading \<open>datacube_dimensions[2]\<close> raises IndexError on a shape of fewer than three
  entries, before the comprehension starts; then every plane is convolved, the results
  are stacked and the axes reordered.
\<close>

definition apply_psf :: "'a::semiring_0 ndarray \<Rightarrow> 'a ndarray \<Rightarrow> pyerror + 'a ndarray" where
  "apply_psf datacube psf_kernel =
     (let datacube_dimensions = shape datacube
      in if length datacube_dimensions \<le> 2 then Inl IndexError
         else
           case collect (map (\<lambda>i. convolve_plane (index_axis2 datacube i) psf_kernel)
                          [0..<datacube_dimensions ! 2]) of
             Inl e \<Rightarrow> Inl e
           | Inr planes \<Rightarrow>
               (case jnp_array planes of
                  Inl e \<Rightarrow> Inl e
                | Inr convolved \<Rightarrow> jnp_transpose_120 convolved))"

section \<open>The specification of the convolution\<close>

text \<open>
  The same-size convolution in the words of the specification: the output has the shape
  of the plane, the kernel is aligned with each output pixel, and whatever the kernel
  reaches outside the plane counts as zero. The kernel entry that meets the output pixel
  is the one at row \<open>(h - 1) div 2\<close> and column \<open>(w - 1) div 2\<close>: the centre of the
  kernel when its extents are odd. For an even extent the specification leaves the
  convention open; the entry taken here is the first of the two middle ones.
\<close>

definition same_conv_at :: "'a::semiring_0 ndarray \<Rightarrow> 'a ndarray \<Rightarrow> nat \<Rightarrow> nat \<Rightarrow> 'a" where
  "same_conv_at P K i j =
     (let h = shape K ! 0; w = shape K ! 1; ch = (h - 1) div 2; cw = (w - 1) div 2
      in sum_list (map (\<lambda>a. sum_list (map (\<lambda>b.
           at2 P (int i + int ch - int a) (int j + int cw - int b) * at2 K (int a) (int b))
           [0..<w])) [0..<h]))"

text \<open>The plane of channel \<open>c\<close> of a datacube of three axes.\<close>

definition plane_of :: "'a ndarray \<Rightarrow> nat \<Rightarrow> 'a ndarray" where
  "plane_of D c =
     \<lparr>shape = [shape D ! 0, shape D ! 1],
      elems = mk2 (shape D ! 0) (shape D ! 1) (\<lambda>x y. at3 D x y c)\<rparr>"

text \<open>The blurred datacube: channel \<open>c\<close> is the convolution of plane \<open>c\<close>.\<close>

definition psf_spec :: "'a::semiring_0 ndarray \<Rightarrow> 'a ndarray \<Rightarrow> 'a ndarray" where
  "psf_spec D K =
     \<lparr>shape = shape D,
      elems = mk3 (shape D ! 0) (shape D ! 1) (shape D ! 2)
                (\<lambda>x y c. same_conv_at (plane_of D c) K x y)\<rparr>"

text \<open>
  The shapes the library convolves: plane \<open>X \<times> Y\<close> and kernel \<open>h \<times> w\<close>, none of
  them empty, and one of the two no larger than the other in both axes.
\<close>

definition conv_shapes_ok :: "nat \<Rightarrow> nat \<Rightarrow> nat \<Rightarrow> nat \<Rightarrow> bool" where
  "conv_shapes_ok X Y h w \<longleftrightarrow>
     0 < X \<and> 0 < Y \<and> 0 < h \<and> 0 < w \<and> ((h \<le> X \<and> w \<le> Y) \<or> (X \<le> h \<and> Y \<le> w))"

section \<open>Inputs of the algebraic properties\<close>

text \<open>
  The degenerate kernel of \<open>h \<times> w\<close> entries: zero everywhere but for a single 1 at its
  centre, row \<open>h div 2\<close> and column \<open>w div 2\<close>, the centre \<open>(height / 2, width / 2)\<close> of
  the specification. For an odd extent that is the middle entry.
\<close>

definition identity_kernel :: "nat \<Rightarrow> nat \<Rightarrow> 'a::{zero,one} ndarray" where
  "identity_kernel h w =
     \<lparr>shape = [h, w],
      elems = mk2 h w (\<lambda>a b. if a = h div 2 \<and> b = w div 2 then 1 else 0)\<rparr>"

text \<open>\<open>a * A + b * B\<close> on two arrays of the same shape: entry by entry.\<close>

definition lincomb :: "'a::semiring_0 \<Rightarrow> 'a ndarray \<Rightarrow> 'a \<Rightarrow> 'a ndarray \<Rightarrow> 'a ndarray" where
  "lincomb a A b B =
     \<lparr>shape = shape A, elems = map2 (\<lambda>u v. a * u + b * v) (elems A) (elems B)\<rparr>"

text \<open>
  The linear combination of two results: an exception of either call is the exception
  of the whole expression, the first call's first.
\<close>

definition lincomb_result ::
  "'a::semiring_0 \<Rightarrow> pyerror + 'a ndarray \<Rightarrow> 'a \<Rightarrow> pyerror + 'a ndarray \<Rightarrow> pyerror + 'a ndarray" where
  "lincomb_result a RA b RB =
     (case RA of
        Inl e \<Rightarrow> Inl e
      | Inr A \<Rightarrow> (case RB of Inl e \<Rightarrow> Inl e | Inr B \<Rightarrow> Inr (lincomb a A b B)))"

section \<open>The program on a store\<close>

text \<open>
  To say what the program does to its arguments, arrays live in a store and the program
  receives references. A reference is an index into the store; every array a library
  call returns is a new cell. The program has no statement that assigns into an array.
\<close>

type_synonym 'a store = "'a ndarray list"

definition alloc :: "'a store \<Rightarrow> 'a ndarray \<Rightarrow> nat \<times> 'a store" where
  "alloc H A = (length H, H @ [A])"

text \<open>The list comprehension of \<open>apply_psf\<close>: slice, convolve, next channel.\<close>

fun convolve_planes_st ::
  "'a::semiring_0 store \<Rightarrow> nat \<Rightarrow> nat \<Rightarrow> nat list \<Rightarrow> (pyerror + nat list) \<times> 'a store" where
  "convolve_planes_st H datacube psf_kernel [] = (Inr [], H)"
| "convolve_planes_st H datacube psf_kernel (i # is) =
     (case alloc H (index_axis2 (H ! datacube) i) of
        (plane, H1) \<Rightarrow>
          (case convolve_plane (H1 ! plane) (H1 ! psf_kernel) of
             Inl e \<Rightarrow> (Inl e, H1)
           | Inr c \<Rightarrow>
               (case alloc H1 c of
                  (q, H2) \<Rightarrow>
                    (case convolve_planes_st H2 datacube psf_kernel is of
                       (Inl e, H3) \<Rightarrow> (Inl e, H3)
                     | (Inr qs, H3) \<Rightarrow> (Inr (q # qs), H3)))))"

definition apply_psf_st ::
  "'a::semiring_0 store \<Rightarrow> nat \<Rightarrow> nat \<Rightarrow> (pyerror + nat) \<times> 'a store" where
  "apply_psf_st H datacube psf_kernel =
     (let datacube_dimensions = shape (H ! datacube)
      in if length datacube_dimensions \<le> 2 then (Inl IndexError, H)
         else
           case convolve_planes_st H datacube psf_kernel [0..<datacube_dimensions ! 2] of
             (Inl e, H1) \<Rightarrow> (Inl e, H1)
           | (Inr qs, H1) \<Rightarrow>
               (case jnp_array (map (\<lambda>q. H1 ! q) qs) of
                  Inl e \<Rightarrow> (Inl e, H1)
                | Inr stacked \<Rightarrow>
                    (case alloc H1 stacked of
                       (convolved, H2) \<Rightarrow>
                         (case jnp_transpose_120 (H2 ! convolved) of
                            Inl e \<Rightarrow> (Inl e, H2)
                          | Inr permuted \<Rightarrow>
                              (case alloc H2 permuted of
                                 (transposed, H3) \<Rightarrow> (Inr transposed, H3))))))"

section \<open>The kernel builder\<close>

text \<open>
  Modelled from the spec: the kernel builder \<open>gaussian_kernel_2d\<close> of
  \<open>rubix.telescope.psf.kernels\<close> is imported and called by the notebook, but its code
  is not among the sources. The specification describes it: the parameters are refused
  with \<open>InvalidParameter\<close> when the height or the width is not a positive integer or
  the spread is not positive; otherwise the isotropic Gaussian density of that spread,
  centred at \<open>(height / 2, width / 2)\<close>, is evaluated over the integer grid and every
  entry is divided by the sum of all of them. The entries are real numbers.
\<close>

datatype spec_error = InvalidParameter | ShapeMismatch

definition gaussian_density :: "real \<Rightarrow> real \<Rightarrow> real \<Rightarrow> real \<Rightarrow> real \<Rightarrow> real" where
  "gaussian_density spread ci cj i j =
     exp (- ((i - ci)\<^sup>2 + (j - cj)\<^sup>2) / (2 * spread\<^sup>2)) / (2 * pi * spread\<^sup>2)"

definition gaussian_kernel_2d :: "real \<Rightarrow> real \<Rightarrow> real \<Rightarrow> spec_error + real ndarray" where
  "gaussian_kernel_2d height width spread =
     (if height \<le> 0 \<or> width \<le> 0 \<or> of_int \<lfloor>height\<rfloor> \<noteq> height \<or> of_int \<lfloor>width\<rfloor> \<noteq> width
         \<or> spread \<le> 0
      then Inl InvalidParameter
      else
        let h = nat \<lfloor>height\<rfloor>; w = nat \<lfloor>width\<rfloor>;
            grid = mk2 h w (\<lambda>i j. gaussian_density spread (height / 2) (width / 2) (real i) (real j));
            total = sum_list grid
        in Inr \<lparr>shape = [h, w], elems = map (\<lambda>g. g / total) grid\<rparr>)"

section \<open>Row-major tables\<close>

lemma length_mk2: "length (mk2 X Y f) = X * Y"
  by (simp add: mk2_def)

lemma length_mk3: "length (mk3 X Y C f) = X * Y * C"
  by (simp add: mk3_def)

lemma idx2_less: "x < X \<Longrightarrow> y < Y \<Longrightarrow> x * Y + y < X * (Y::nat)"
proof -
  assume a: "x < X" "y < Y"
  then have "x * Y + y < x * Y + Y" by simp
  also have "\<dots> = Suc x * Y" by simp
  also have "\<dots> \<le> X * Y" using a(1) by (intro mult_le_mono1) simp
  finally show ?thesis .
qed

lemma idx3_less: "x < X \<Longrightarrow> y < Y \<Longrightarrow> c < C \<Longrightarrow> (x * Y + y) * C + c < X * Y * (C::nat)"
  by (rule idx2_less [OF idx2_less])

lemma nth_mk2:
  assumes "x < X" "y < Y"
  shows "mk2 X Y f ! (x * Y + y) = f x y"
proof -
  have "x * Y + y < X * Y" using assms by (rule idx2_less)
  then have "mk2 X Y f ! (x * Y + y) = f ((x * Y + y) div Y) ((x * Y + y) mod Y)"
    by (simp add: mk2_def)
  then show ?thesis using assms(2) by simp
qed

lemma nth_mk3_raw:
  "n < X * Y * C \<Longrightarrow> mk3 X Y C f ! n = f (n div (Y * C)) (n div C mod Y) (n mod C)"
  by (simp add: mk3_def)

lemma nth_mk3:
  assumes "x < X" "y < Y" "c < C"
  shows "mk3 X Y C f ! ((x * Y + y) * C + c) = f x y c"
proof -
  define n where "n = (x * Y + y) * C + c"
  have lt: "n < X * Y * C" unfolding n_def using assms by (rule idx3_less)
  have d1: "n div (Y * C) = x"
  proof -
    have e: "n = x * (Y * C) + (y * C + c)" by (simp add: n_def algebra_simps)
    have l: "y * C + c < Y * C" using assms(2,3) by (rule idx2_less)
    have "0 < Y" "0 < C" using assms by auto
    then have "Y * C \<noteq> 0" by simp
    then have "(x * (Y * C) + (y * C + c)) div (Y * C) = x + (y * C + c) div (Y * C)"
      by (rule div_mult_self3)
    also have "(y * C + c) div (Y * C) = 0" using l by simp
    finally show ?thesis by (simp only: e add_0_right)
  qed
  have d2: "n div C = x * Y + y" unfolding n_def using assms(3) by simp
  have d3: "n div C mod Y = y" unfolding d2 using assms(2) by simp
  have d4: "n mod C = c" unfolding n_def using assms(3) by simp
  have "mk3 X Y C f ! n = f (n div (Y * C)) (n div C mod Y) (n mod C)"
    using lt by (rule nth_mk3_raw)
  then show ?thesis unfolding d1 d3 d4 unfolding n_def .
qed

lemma mk2_cong:
  assumes "\<And>x y. x < X \<Longrightarrow> y < Y \<Longrightarrow> f x y = g x y"
  shows "mk2 X Y f = mk2 X Y g"
  unfolding mk2_def
proof (rule map_cong [OF refl])
  fix n assume "n \<in> set [0..<X * Y]"
  then have n: "n < X * Y" by simp
  then have Y: "0 < Y" by (cases Y) simp_all
  have "n div Y < X" using n by (simp add: less_mult_imp_div_less)
  moreover have "n mod Y < Y" using Y by simp
  ultimately show "f (n div Y) (n mod Y) = g (n div Y) (n mod Y)"
    by (rule assms)
qed

lemma mk3_cong:
  assumes "\<And>x y c. x < X \<Longrightarrow> y < Y \<Longrightarrow> c < C \<Longrightarrow> f x y c = g x y c"
  shows "mk3 X Y C f = mk3 X Y C g"
  unfolding mk3_def
proof (rule map_cong [OF refl])
  fix n assume "n \<in> set [0..<X * Y * C]"
  then have n: "n < X * Y * C" by simp
  have C: "0 < C" using n by (cases C) simp_all
  have Y: "0 < Y" using n by (cases Y) simp_all
  have "n < X * (Y * C)" using n by (simp only: mult.assoc)
  then have "n div (Y * C) < X" by (rule less_mult_imp_div_less)
  moreover have "n div C mod Y < Y" using Y by simp
  moreover have "n mod C < C" using C by simp
  ultimately show "f (n div (Y * C)) (n div C mod Y) (n mod C) = g (n div (Y * C)) (n div C mod Y) (n mod C)"
    by (rule assms)
qed

lemma mk3_nth_id:
  assumes "length xs = X * Y * C"
  shows "mk3 X Y C (\<lambda>x y c. xs ! ((x * Y + y) * C + c)) = xs"
proof (rule nth_equalityI)
  show "length (mk3 X Y C (\<lambda>x y c. xs ! ((x * Y + y) * C + c))) = length xs"
    using assms by (simp add: length_mk3)
next
  fix n assume "n < length (mk3 X Y C (\<lambda>x y c. xs ! ((x * Y + y) * C + c)))"
  then have n: "n < X * Y * C" by (simp add: length_mk3)
  have e: "(n div (Y * C) * Y + n div C mod Y) * C + n mod C = n"
  proof -
    have "n div (C * Y) = (n div C) div Y" by (rule div_mult2_eq)
    then have "n div (Y * C) = (n div C) div Y" by (simp only: mult.commute [of Y C])
    then have "n div (Y * C) * Y + n div C mod Y = n div C" by simp
    then show ?thesis by simp
  qed
  have "mk3 X Y C (\<lambda>x y c. xs ! ((x * Y + y) * C + c)) ! n
      = xs ! ((n div (Y * C) * Y + n div C mod Y) * C + n mod C)"
    using n by (rule nth_mk3_raw)
  then show "mk3 X Y C (\<lambda>x y c. xs ! ((x * Y + y) * C + c)) ! n = xs ! n"
    by (simp only: e)
qed

lemma length_concat_uniform:
  "(\<And>i. i < C \<Longrightarrow> length (f i) = L) \<Longrightarrow> length (concat (map f [0..<C])) = C * L"
  by (induction C) simp_all

lemma concat_nth_uniform:
  assumes "\<And>i. i < C \<Longrightarrow> length (f i) = L" "c < C" "m < L"
  shows "concat (map f [0..<C]) ! (c * L + m) = f c ! m"
  using assms
proof (induction C)
  case 0
  then show ?case by simp
next
  case (Suc C)
  define A where "A = concat (map f [0..<C])"
  have split: "concat (map f [0..<Suc C]) = A @ f C" by (simp add: A_def)
  have len: "length A = C * L"
    unfolding A_def by (rule length_concat_uniform) (use Suc.prems(1) in simp)
  show ?case
  proof (cases "c < C")
    case True
    have lt: "c * L + m < length A" unfolding len using True Suc.prems(3) by (rule idx2_less)
    have "A ! (c * L + m) = f c ! m"
      unfolding A_def by (rule Suc.IH) (use Suc.prems True in simp_all)
    moreover have "(A @ f C) ! (c * L + m) = A ! (c * L + m)"
      using lt by (simp only: nth_append if_True)
    ultimately show ?thesis unfolding split by simp
  next
    case False
    then have c: "c = C" using Suc.prems(2) by simp
    have "(A @ f C) ! (length A + m) = f C ! m" by (rule nth_append_length_plus)
    then show ?thesis unfolding split c len .
  qed
qed

lemma collect_map_Inr: "collect (map (\<lambda>i. Inr (g i)) xs) = Inr (map g xs)"
  by (induction xs) simp_all

lemma collect_map_Inl: "xs \<noteq> [] \<Longrightarrow> collect (map (\<lambda>i. Inl e) xs) = Inl e"
  by (cases xs) simp_all

lemma sum_list_upt_sum: "sum_list (map f [0..<n]) = sum f {..<n}"
  by (simp add: interv_sum_list_conv_sum_set_nat atLeast0LessThan)

section \<open>The library convolution is the same-size convolution\<close>

lemma conv_swap1:
  fixes g :: "int \<Rightarrow> int \<Rightarrow> 'a::comm_monoid_add"
  assumes z: "\<And>p q. p < 0 \<or> int X \<le> p \<or> q < 0 \<or> int h \<le> q \<Longrightarrow> g p q = 0"
  shows "(\<Sum>m<X. g (int m) (t - int m)) = (\<Sum>a<h. g (t - int a) (int a))"
proof -
  define S where "S = {m. m < X \<and> 0 \<le> t - int m \<and> t - int m < int h}"
  define T where "T = {a. a < h \<and> 0 \<le> t - int a \<and> t - int a < int X}"
  have "(\<Sum>m<X. g (int m) (t - int m)) = (\<Sum>m\<in>S. g (int m) (t - int m))"
    by (rule sum.mono_neutral_right) (auto simp: S_def intro: z)
  also have "\<dots> = (\<Sum>a\<in>T. g (t - int a) (int a))"
    by (rule sum.reindex_bij_witness [where i = "\<lambda>a. nat (t - int a)" and j = "\<lambda>m. nat (t - int m)"])
       (auto simp: S_def T_def)
  also have "\<dots> = (\<Sum>a<h. g (t - int a) (int a))"
    by (rule sum.mono_neutral_left) (auto simp: T_def intro: z)
  finally show ?thesis .
qed

lemma conv_swap2:
  fixes fA fB :: "int \<Rightarrow> int \<Rightarrow> 'a::comm_semiring_0"
  assumes zA: "\<And>p q. p < 0 \<or> int X \<le> p \<or> q < 0 \<or> int Y \<le> q \<Longrightarrow> fA p q = 0"
  assumes zB: "\<And>p q. p < 0 \<or> int h \<le> p \<or> q < 0 \<or> int w \<le> q \<Longrightarrow> fB p q = 0"
  shows "(\<Sum>m<X. \<Sum>n<Y. fB (t - int m) (u - int n) * fA (int m) (int n))
       = (\<Sum>a<h. \<Sum>b<w. fA (t - int a) (u - int b) * fB (int a) (int b))"
proof -
  have "(\<Sum>m<X. \<Sum>n<Y. fB (t - int m) (u - int n) * fA (int m) (int n))
      = (\<Sum>a<h. \<Sum>n<Y. fB (int a) (u - int n) * fA (t - int a) (int n))"
    by (rule conv_swap1 [where g = "\<lambda>p q. \<Sum>n<Y. fB q (u - int n) * fA p (int n)"])
       (auto simp: zA zB)
  also have "\<dots> = (\<Sum>a<h. \<Sum>b<w. fA (t - int a) (u - int b) * fB (int a) (int b))"
  proof (rule sum.cong [OF refl])
    fix a
    have "(\<Sum>n<Y. fB (int a) (u - int n) * fA (t - int a) (int n))
        = (\<Sum>b<w. fB (int a) (int b) * fA (t - int a) (u - int b))"
      by (rule conv_swap1 [where g = "\<lambda>p q. fB (int a) q * fA (t - int a) p"])
         (auto simp: zA zB)
    then show "(\<Sum>n<Y. fB (int a) (u - int n) * fA (t - int a) (int n))
        = (\<Sum>b<w. fA (t - int a) (u - int b) * fB (int a) (int b))"
      by (simp only: mult.commute)
  qed
  finally show ?thesis .
qed

lemma at2_outside:
  "p < 0 \<or> int (shape A ! 0) \<le> p \<or> q < 0 \<or> int (shape A ! 1) \<le> q \<Longrightarrow> at2 A p q = 0"
  by (auto simp: at2_def)


lemma at2_inside:
  "a < shape A ! 0 \<Longrightarrow> b < shape A ! 1 \<Longrightarrow> at2 A (int a) (int b) = elems A ! (a * (shape A ! 1) + b)"
  by (simp add: at2_def)

lemma flip_index:
  assumes "a < h" "b < w"
  shows "h * w - Suc (a * w + b) = (h - Suc a) * w + (w - Suc b)"
proof -
  obtain a' where h: "h = Suc (a + a')" using assms(1) less_imp_Suc_add by blast
  obtain b' where w: "w = Suc (b + b')" using assms(2) less_imp_Suc_add by blast
  have "h - Suc a = a'" "w - Suc b = b'" by (simp_all add: h w)
  moreover have "h * w = Suc (a * w + b) + (a' * w + b')"
    by (simp add: h w algebra_simps)
  ultimately show ?thesis by simp
qed

lemma at2_flip:
  assumes wf: "wf_array K" and sh: "shape K = [h, w]" and ab: "a < h" "b < w"
  shows "at2 (jnp_flip K) (int a) (int b) = at2 K (int (h - Suc a)) (int (w - Suc b))"
proof -
  have len: "length (elems K) = h * w" using wf sh by (simp add: wf_array_def asize_def)
  have lt: "a * w + b < length (elems K)" unfolding len using ab by (rule idx2_less)
  have "at2 (jnp_flip K) (int a) (int b) = rev (elems K) ! (a * w + b)"
    using ab sh by (simp add: at2_def jnp_flip_def)
  also have "\<dots> = elems K ! (h * w - Suc (a * w + b))"
    using lt by (simp add: rev_nth len)
  also have "h * w - Suc (a * w + b) = (h - Suc a) * w + (w - Suc b)"
    using ab by (rule flip_index)
  also have "elems K ! ((h - Suc a) * w + (w - Suc b)) = at2 K (int (h - Suc a)) (int (w - Suc b))"
  proof -
    have s0: "shape K ! 0 = h" and s1: "shape K ! 1 = w" by (simp_all add: sh)
    have "at2 K (int (h - Suc a)) (int (w - Suc b))
        = elems K ! ((h - Suc a) * (shape K ! 1) + (w - Suc b))"
      by (rule at2_inside) (use ab in \<open>simp_all add: sh\<close>)
    then show ?thesis unfolding s1 by (rule sym)
  qed
  finally show ?thesis .
qed

lemma flip_reindex:
  fixes F :: "int \<Rightarrow> int \<Rightarrow> 'a::semiring_0"
  assumes wf: "wf_array K" and sh: "shape K = [h, w]"
  shows "(\<Sum>a<h. \<Sum>b<w. F (int a) (int b) * at2 (jnp_flip K) (int a) (int b))
       = (\<Sum>a<h. \<Sum>b<w. F (int h - 1 - int a) (int w - 1 - int b) * at2 K (int a) (int b))"
proof -
  define G where "G a b = F (int h - 1 - int a) (int w - 1 - int b) * at2 K (int a) (int b)" for a b
  have "(\<Sum>a<h. \<Sum>b<w. F (int a) (int b) * at2 (jnp_flip K) (int a) (int b))
      = (\<Sum>a<h. \<Sum>b<w. G (h - Suc a) (w - Suc b))"
  proof (intro sum.cong refl)
    fix a b assume "a \<in> {..<h}" "b \<in> {..<w}"
    then have ab: "a < h" "b < w" by simp_all
    have "int h - 1 - int (h - Suc a) = int a" "int w - 1 - int (w - Suc b) = int b"
      using ab by simp_all
    then show "F (int a) (int b) * at2 (jnp_flip K) (int a) (int b) = G (h - Suc a) (w - Suc b)"
      unfolding G_def using at2_flip [OF wf sh ab] by simp
  qed
  also have "\<dots> = (\<Sum>a<h. \<Sum>b<w. G (h - Suc a) b)"
    by (intro sum.cong refl sum.nat_diff_reindex)
  also have "\<dots> = (\<Sum>a<h. \<Sum>b<w. G a b)"
    by (rule sum.nat_diff_reindex [where g = "\<lambda>a. \<Sum>b<w. G a b"])
  finally show ?thesis unfolding G_def .
qed

lemma conv_general_dilated_eq:
  assumes "shape lhs = [H, W]" "shape rhs = [kh, kw]"
  shows "conv_general_dilated lhs rhs [(lo0, hi0), (lo1, hi1)] =
     \<lparr>shape = [nat (int H + lo0 + hi0 - int kh + 1), nat (int W + lo1 + hi1 - int kw + 1)],
      elems = mk2 (nat (int H + lo0 + hi0 - int kh + 1)) (nat (int W + lo1 + hi1 - int kw + 1))
        (\<lambda>i j. \<Sum>a<kh. \<Sum>b<kw.
           at2 lhs (int i + int a - lo0) (int j + int b - lo1) * at2 rhs (int a) (int b))\<rparr>"
  using assms by (simp add: conv_general_dilated_def sum_list_upt_sum Let_def)

lemma same_conv_at_eq:
  assumes "shape K = [h, w]"
  shows "same_conv_at P K i j =
     (\<Sum>a<h. \<Sum>b<w. at2 P (int i + int ((h - 1) div 2) - int a) (int j + int ((w - 1) div 2) - int b)
        * at2 K (int a) (int b))"
  using assms by (simp add: same_conv_at_def sum_list_upt_sum Let_def)


lemma half_int: "0 < h \<Longrightarrow> (int h - 1) div 2 = int ((h - 1) div 2)"
  by (simp add: zdiv_int of_nat_diff)

lemma conv_sum_swap:
  fixes P K :: "'a::comm_semiring_0 ndarray"
  assumes wfP: "wf_array P" and shP: "shape P = [X, Y]" and shK: "shape K = [h, w]"
  shows "(\<Sum>a<X. \<Sum>b<Y. at2 K (int i + int a - (int X - 1 - int ch)) (int j + int b - (int Y - 1 - int cw))
            * at2 (jnp_flip P) (int a) (int b))
       = (\<Sum>a<h. \<Sum>b<w. at2 P (int i + int ch - int a) (int j + int cw - int b) * at2 K (int a) (int b))"
proof -
  have "(\<Sum>a<X. \<Sum>b<Y. at2 K (int i + int a - (int X - 1 - int ch)) (int j + int b - (int Y - 1 - int cw))
            * at2 (jnp_flip P) (int a) (int b))
      = (\<Sum>a<X. \<Sum>b<Y. at2 K (int i + (int X - 1 - int a) - (int X - 1 - int ch))
                              (int j + (int Y - 1 - int b) - (int Y - 1 - int cw))
            * at2 P (int a) (int b))"
    by (rule flip_reindex [OF wfP shP,
          where F = "\<lambda>p q. at2 K (int i + p - (int X - 1 - int ch)) (int j + q - (int Y - 1 - int cw))"])
  also have "\<dots> = (\<Sum>a<X. \<Sum>b<Y. at2 K (int i + int ch - int a) (int j + int cw - int b) * at2 P (int a) (int b))"
    by (simp add: algebra_simps)
  also have "\<dots> = (\<Sum>a<h. \<Sum>b<w. at2 P (int i + int ch - int a) (int j + int cw - int b) * at2 K (int a) (int b))"
    by (rule conv_swap2 [where fA = "at2 P" and fB = "at2 K"])
       (rule at2_outside, simp add: shP shK)+
  finally show ?thesis .
qed

lemma conv_sum_no_swap:
  fixes P K :: "'a::semiring_0 ndarray"
  assumes wfK: "wf_array K" and shK: "shape K = [h, w]"
  shows "(\<Sum>a<h. \<Sum>b<w. at2 P (int i + int a - (int h - 1 - int ch)) (int j + int b - (int w - 1 - int cw))
            * at2 (jnp_flip K) (int a) (int b))
       = (\<Sum>a<h. \<Sum>b<w. at2 P (int i + int ch - int a) (int j + int cw - int b) * at2 K (int a) (int b))"
proof -
  have "(\<Sum>a<h. \<Sum>b<w. at2 P (int i + int a - (int h - 1 - int ch)) (int j + int b - (int w - 1 - int cw))
            * at2 (jnp_flip K) (int a) (int b))
      = (\<Sum>a<h. \<Sum>b<w. at2 P (int i + (int h - 1 - int a) - (int h - 1 - int ch))
                              (int j + (int w - 1 - int b) - (int w - 1 - int cw))
            * at2 K (int a) (int b))"
    by (rule flip_reindex [OF wfK shK,
          where F = "\<lambda>p q. at2 P (int i + p - (int h - 1 - int ch)) (int j + q - (int w - 1 - int cw))"])
  also have "\<dots> = (\<Sum>a<h. \<Sum>b<w. at2 P (int i + int ch - int a) (int j + int cw - int b) * at2 K (int a) (int b))"
    by (simp add: algebra_simps)
  finally show ?thesis .
qed


lemma convolve2d_fail:
  assumes "shape P = [X, Y]" "shape K = [h, w]" "\<not> conv_shapes_ok X Y h w"
  shows "convolve2d P K = Inl ValueError"
  using assms
  by (auto simp add: convolve2d_def convolve_nd_same_def ndim_def asize_def conv_shapes_ok_def Let_def)

lemma convolve2d_same:
  fixes P K :: "'a::comm_semiring_0 ndarray"
  assumes wfP: "wf_array P" and shP: "shape P = [X, Y]"
      and wfK: "wf_array K" and shK: "shape K = [h, w]"
      and ok: "conv_shapes_ok X Y h w"
  shows "convolve2d P K = Inr \<lparr>shape = [X, Y], elems = mk2 X Y (same_conv_at P K)\<rparr>"
proof -
  define ch where "ch = (h - 1) div 2"
  define cw where "cw = (w - 1) div 2"
  have pos: "0 < X" "0 < Y" "0 < h" "0 < w" using ok by (simp_all add: conv_shapes_ok_def)
  have ich: "(int h - 1) div 2 = int ch" and icw: "(int w - 1) div 2 = int cw"
    unfolding ch_def cw_def using pos by (simp_all add: half_int)
  have spec: "same_conv_at P K i j =
      (\<Sum>a<h. \<Sum>b<w. at2 P (int i + int ch - int a) (int j + int cw - int b) * at2 K (int a) (int b))"
    for i j unfolding ch_def cw_def using shK by (rule same_conv_at_eq)
  have shFP: "shape (jnp_flip P) = [X, Y]" and shFK: "shape (jnp_flip K) = [h, w]"
    by (simp_all add: jnp_flip_def shP shK)
  show ?thesis
  proof (cases "X \<le> h \<and> Y \<le> w")
    case True
    have "convolve2d P K = Inr (conv_general_dilated K (jnp_flip P)
        [(int X - 1 - int ch, int X - int h + int ch), (int Y - 1 - int cw, int Y - int w + int cw)])"
      using True pos
      by (simp add: convolve2d_def convolve_nd_same_def ndim_def asize_def shP shK Let_def ich icw)
    also have "conv_general_dilated K (jnp_flip P)
        [(int X - 1 - int ch, int X - int h + int ch), (int Y - 1 - int cw, int Y - int w + int cw)]
      = \<lparr>shape = [X, Y], elems = mk2 X Y (\<lambda>i j. \<Sum>a<X. \<Sum>b<Y.
           at2 K (int i + int a - (int X - 1 - int ch)) (int j + int b - (int Y - 1 - int cw))
             * at2 (jnp_flip P) (int a) (int b))\<rparr>"
      by (simp add: conv_general_dilated_eq [OF shK shFP])
    also have "mk2 X Y (\<lambda>i j. \<Sum>a<X. \<Sum>b<Y.
           at2 K (int i + int a - (int X - 1 - int ch)) (int j + int b - (int Y - 1 - int cw))
             * at2 (jnp_flip P) (int a) (int b)) = mk2 X Y (same_conv_at P K)"
      by (rule mk2_cong) (simp only: spec conv_sum_swap [OF wfP shP shK])
    finally show ?thesis .
  next
    case False
    then have fit: "h \<le> X" "w \<le> Y" using ok by (auto simp add: conv_shapes_ok_def)
    have "convolve2d P K = Inr (conv_general_dilated P (jnp_flip K)
        [(int h - 1 - int ch, int h - int h + int ch), (int w - 1 - int cw, int w - int w + int cw)])"
      using False fit pos
      by (auto simp add: convolve2d_def convolve_nd_same_def ndim_def asize_def shP shK Let_def ich icw)
    also have "conv_general_dilated P (jnp_flip K)
        [(int h - 1 - int ch, int h - int h + int ch), (int w - 1 - int cw, int w - int w + int cw)]
      = \<lparr>shape = [X, Y], elems = mk2 X Y (\<lambda>i j. \<Sum>a<h. \<Sum>b<w.
           at2 P (int i + int a - (int h - 1 - int ch)) (int j + int b - (int w - 1 - int cw))
             * at2 (jnp_flip K) (int a) (int b))\<rparr>"
      by (simp add: conv_general_dilated_eq [OF shP shFK])
    also have "mk2 X Y (\<lambda>i j. \<Sum>a<h. \<Sum>b<w.
           at2 P (int i + int a - (int h - 1 - int ch)) (int j + int b - (int w - 1 - int cw))
             * at2 (jnp_flip K) (int a) (int b)) = mk2 X Y (same_conv_at P K)"
      by (rule mk2_cong) (simp only: spec conv_sum_no_swap [OF wfK shK])
    finally show ?thesis .
  qed
qed

section \<open>What \<open>apply_psf\<close> computes\<close>

lemma index_axis2_plane:
  assumes "shape D = [X, Y, C]"
  shows "index_axis2 D c = plane_of D c"
  using assms by (simp add: index_axis2_def plane_of_def mk3_def mk2_def at3_def Let_def)

lemma wf_plane_of: "wf_array (plane_of D c)"
  by (simp add: wf_array_def asize_def plane_of_def length_mk2)

lemma shape_plane_of: "shape D = [X, Y, C] \<Longrightarrow> shape (plane_of D c) = [X, Y]"
  by (simp add: plane_of_def)

lemma convolve_plane_ok:
  fixes D K :: "'a::comm_semiring_0 ndarray"
  assumes shD: "shape D = [X, Y, C]" and wfK: "wf_array K" and shK: "shape K = [h, w]"
      and ok: "conv_shapes_ok X Y h w"
  shows "convolve_plane (index_axis2 D c) K =
     Inr \<lparr>shape = [X, Y], elems = mk2 X Y (same_conv_at (plane_of D c) K)\<rparr>"
  unfolding convolve_plane_def index_axis2_plane [OF shD]
  by (rule convolve2d_same [OF wf_plane_of shape_plane_of [OF shD] wfK shK ok])

lemma convolve_plane_fail:
  assumes shD: "shape D = [X, Y, C]" and shK: "shape K = [h, w]"
      and nok: "\<not> conv_shapes_ok X Y h w"
  shows "convolve_plane (index_axis2 D c) K = Inl ValueError"
  unfolding convolve_plane_def index_axis2_plane [OF shD]
  by (rule convolve2d_fail [OF shape_plane_of [OF shD] shK nok])

lemma stack_transpose:
  assumes C: "0 < C"
  shows "(case jnp_array (map (\<lambda>c. \<lparr>shape = [X, Y], elems = mk2 X Y (g c)\<rparr>) [0..<C]) of
            Inl e \<Rightarrow> Inl e | Inr convolved \<Rightarrow> jnp_transpose_120 convolved)
       = Inr \<lparr>shape = [X, Y, C], elems = mk3 X Y C (\<lambda>x y c. g c x y)\<rparr>"
proof -
  define R where "R c = \<lparr>shape = [X, Y], elems = mk2 X Y (g c)\<rparr>" for c
  have ne: "map R [0..<C] \<noteq> []" using C by simp
  have all: "list_all (\<lambda>p. shape p = shape (hd (map R [0..<C]))) (map R [0..<C])"
    using C by (simp add: list_all_iff R_def hd_map upt_conv_Cons)
  have hd: "shape (hd (map R [0..<C])) = [X, Y]"
    using C by (simp add: R_def hd_map upt_conv_Cons)
  have st: "jnp_array (map R [0..<C]) =
      Inr \<lparr>shape = [C, X, Y], elems = concat (map (\<lambda>c. mk2 X Y (g c)) [0..<C])\<rparr>"
    using ne all hd by (simp add: jnp_array_def R_def comp_def)
  have el: "mk3 X Y C (\<lambda>x y c. concat (map (\<lambda>c. mk2 X Y (g c)) [0..<C]) ! ((c * X + x) * Y + y))
      = mk3 X Y C (\<lambda>x y c. g c x y)"
  proof (rule mk3_cong)
    fix x y c assume xyc: "x < X" "y < Y" "c < C"
    have m: "x * Y + y < X * Y" using xyc(1,2) by (rule idx2_less)
    have e: "(c * X + x) * Y + y = c * (X * Y) + (x * Y + y)" by (simp add: algebra_simps)
    have "concat (map (\<lambda>c. mk2 X Y (g c)) [0..<C]) ! (c * (X * Y) + (x * Y + y))
        = mk2 X Y (g c) ! (x * Y + y)"
      by (rule concat_nth_uniform [OF _ xyc(3) m]) (simp add: length_mk2)
    also have "\<dots> = g c x y" using xyc(1,2) by (rule nth_mk2)
    finally show "concat (map (\<lambda>c. mk2 X Y (g c)) [0..<C]) ! ((c * X + x) * Y + y) = g c x y"
      unfolding e .
  qed
  show ?thesis
    unfolding R_def [symmetric, abs_def] st
    by (simp add: jnp_transpose_120_def ndim_def el)
qed

lemma apply_psf_eq:
  fixes D K :: "'a::comm_semiring_0 ndarray"
  assumes shD: "shape D = [X, Y, C]" and wfK: "wf_array K" and shK: "shape K = [h, w]"
  shows "apply_psf D K =
     (if 0 < C \<and> conv_shapes_ok X Y h w then Inr (psf_spec D K) else Inl ValueError)"
proof (cases "0 < C")
  case False
  then show ?thesis
    by (simp add: apply_psf_def shD jnp_array_def jnp_transpose_120_def ndim_def)
next
  case C: True
  show ?thesis
  proof (cases "conv_shapes_ok X Y h w")
    case True
    have mp: "map (\<lambda>i. convolve_plane (index_axis2 D i) K) [0..<C]
        = map (\<lambda>i. Inr \<lparr>shape = [X, Y], elems = mk2 X Y (same_conv_at (plane_of D i) K)\<rparr>) [0..<C]"
      by (simp only: convolve_plane_ok [OF shD wfK shK True])
    have "apply_psf D K =
        (case jnp_array (map (\<lambda>c. \<lparr>shape = [X, Y], elems = mk2 X Y (same_conv_at (plane_of D c) K)\<rparr>) [0..<C]) of
            Inl e \<Rightarrow> Inl e | Inr convolved \<Rightarrow> jnp_transpose_120 convolved)"
      by (simp add: apply_psf_def shD mp collect_map_Inr)
    also have "\<dots> = Inr \<lparr>shape = [X, Y, C],
        elems = mk3 X Y C (\<lambda>x y c. same_conv_at (plane_of D c) K x y)\<rparr>"
      using C by (rule stack_transpose)
    also have "\<dots> = Inr (psf_spec D K)" by (simp add: psf_spec_def shD)
    finally show ?thesis using C True by simp
  next
    case False
    have mp: "map (\<lambda>i. convolve_plane (index_axis2 D i) K) [0..<C] = map (\<lambda>i. Inl ValueError) [0..<C]"
      by (simp only: convolve_plane_fail [OF shD shK False])
    have ne: "[0..<C] \<noteq> []" using C by simp
    show ?thesis using False
      by (simp add: apply_psf_def shD mp collect_map_Inl [OF ne])
  qed
qed

lemma apply_psf_refused:
  fixes D K :: "'a::semiring_0 ndarray"
  assumes shD: "shape D = [X, Y, C]" and shK: "shape K = [h, w]"
      and nok: "\<not> conv_shapes_ok X Y h w"
  shows "apply_psf D K = Inl ValueError"
proof (cases "0 < C")
  case False
  then show ?thesis
    by (simp add: apply_psf_def shD jnp_array_def jnp_transpose_120_def ndim_def)
next
  case True
  have mp: "map (\<lambda>i. convolve_plane (index_axis2 D i) K) [0..<C] = map (\<lambda>i. Inl ValueError) [0..<C]"
    by (simp only: convolve_plane_fail [OF shD shK nok])
  have ne: "[0..<C] \<noteq> []" using True by simp
  show ?thesis
    by (simp add: apply_psf_def shD mp collect_map_Inl [OF ne])
qed

section \<open>The claims about \<open>apply_psf\<close>\<close>

subsection \<open>What is computed, and the datacube without channels\<close>

text \<open>
  C2, as amended: on every datacube of three axes with at least one channel and planes
  that are not empty, and every kernel of two axes that is not empty and is no larger
  than a plane in both axes, or no smaller than a plane in both axes, \<open>apply_psf\<close>
  returns the array whose channel \<open>c\<close> is the same-size convolution, with zero padding,
  of plane \<open>c\<close> of the datacube with the kernel: the planes, convolved one by one,
  stacked channel first and reordered to the axes \<open>(X, Y, C)\<close>, so that entry
  \<open>[x, y, c]\<close> of the result is entry \<open>[x, y]\<close> of the convolved plane \<open>c\<close>.
\<close>

theorem apply_psf_same_convolution:
  fixes D K :: "'a::comm_semiring_0 ndarray"
  assumes "wf_array D" and "shape D = [X, Y, C]" and "0 < C"
      and "wf_array K" and "shape K = [h, w]" and "conv_shapes_ok X Y h w"
  shows "apply_psf D K = Inr (psf_spec D K)"
  using assms(3,6) by (simp add: apply_psf_eq [OF assms(2,4,5)])

theorem apply_psf_same_convolution_witness:
  "wf_array \<lparr>shape = [2, 3, 2], elems = [1, 10, 2, 20, 3, 30, 4, 40, 5, 50, 6, 60 :: int]\<rparr>
   \<and> wf_array \<lparr>shape = [2, 2], elems = [1, 10, 100, 1000 :: int]\<rparr>
   \<and> conv_shapes_ok 2 3 2 2
   \<and> apply_psf \<lparr>shape = [2, 3, 2], elems = [1, 10, 2, 20, 3, 30, 4, 40, 5, 50, 6, 60 :: int]\<rparr>
        \<lparr>shape = [2, 2], elems = [1, 10, 100, 1000]\<rparr>
     = Inr (psf_spec \<lparr>shape = [2, 3, 2], elems = [1, 10, 2, 20, 3, 30, 4, 40, 5, 50, 6, 60]\<rparr>
        \<lparr>shape = [2, 2], elems = [1, 10, 100, 1000]\<rparr>)
   \<and> psf_spec \<lparr>shape = [2, 3, 2], elems = [1, 10, 2, 20, 3, 30, 4, 40, 5, 50, 6, 60 :: int]\<rparr>
        \<lparr>shape = [2, 2], elems = [1, 10, 100, 1000]\<rparr>
     = \<lparr>shape = [2, 3, 2],
        elems = [1, 10, 12, 120, 23, 230, 104, 1040, 1245, 12450, 2356, 23560]\<rparr>"
proof -
  have a: "wf_array \<lparr>shape = [2, 3, 2], elems = [1, 10, 2, 20, 3, 30, 4, 40, 5, 50, 6, 60 :: int]\<rparr>"
    by (simp add: wf_array_def asize_def)
  have b: "wf_array \<lparr>shape = [2, 2], elems = [1, 10, 100, 1000 :: int]\<rparr>"
    by (simp add: wf_array_def asize_def)
  have c: "conv_shapes_ok 2 3 2 2" by (simp add: conv_shapes_ok_def)
  have d: "psf_spec \<lparr>shape = [2, 3, 2], elems = [1, 10, 2, 20, 3, 30, 4, 40, 5, 50, 6, 60 :: int]\<rparr>
        \<lparr>shape = [2, 2], elems = [1, 10, 100, 1000]\<rparr>
     = \<lparr>shape = [2, 3, 2],
        elems = [1, 10, 12, 120, 23, 230, 104, 1040, 1245, 12450, 2356, 23560]\<rparr>"
    by code_simp
  have e: "apply_psf \<lparr>shape = [2, 3, 2], elems = [1, 10, 2, 20, 3, 30, 4, 40, 5, 50, 6, 60 :: int]\<rparr>
        \<lparr>shape = [2, 2], elems = [1, 10, 100, 1000]\<rparr>
     = Inr (psf_spec \<lparr>shape = [2, 3, 2], elems = [1, 10, 2, 20, 3, 30, 4, 40, 5, 50, 6, 60]\<rparr>
        \<lparr>shape = [2, 2], elems = [1, 10, 100, 1000]\<rparr>)"
    by (rule apply_psf_same_convolution [OF a _ _ b _ c, where C = 2]) simp_all
  show ?thesis using a b c d e by simp
qed

text \<open>
  C2 as stated, for every datacube of three axes and every kernel of two axes, fails:
  on planes of \<open>2 \<times> 1\<close> pixels a kernel of \<open>1 \<times> 2\<close> entries is smaller in one axis and
  larger in the other, the library refuses the pair, and \<open>apply_psf\<close> raises ValueError:
  no channel of a result is a convolution of a plane.
\<close>

theorem apply_psf_same_convolution_counterexample:
  "wf_array \<lparr>shape = [2, 1, 1], elems = [1, 2 :: int]\<rparr>
   \<and> wf_array \<lparr>shape = [1, 2], elems = [1, 1 :: int]\<rparr>
   \<and> apply_psf \<lparr>shape = [2, 1, 1], elems = [1, 2 :: int]\<rparr> \<lparr>shape = [1, 2], elems = [1, 1]\<rparr>
       = Inl ValueError
   \<and> apply_psf \<lparr>shape = [2, 1, 1], elems = [1, 2 :: int]\<rparr> \<lparr>shape = [1, 2], elems = [1, 1]\<rparr>
       \<noteq> Inr (psf_spec \<lparr>shape = [2, 1, 1], elems = [1, 2]\<rparr> \<lparr>shape = [1, 2], elems = [1, 1]\<rparr>)"
proof -
  have e: "apply_psf \<lparr>shape = [2, 1, 1], elems = [1, 2 :: int]\<rparr> \<lparr>shape = [1, 2], elems = [1, 1]\<rparr>
       = Inl ValueError"
    by code_simp
  show ?thesis unfolding e by (simp add: wf_array_def asize_def)
qed

text \<open>
  C9: a datacube of shape \<open>(X, Y, 0)\<close> makes \<open>apply_psf\<close> fail, whatever the kernel:
  no plane is convolved, the stacked array has one axis, and the transposition to three
  axes is refused; no empty datacube is returned.
\<close>

theorem apply_psf_no_channel:
  assumes "shape D = [X, Y, 0]"
  shows "apply_psf D K = Inl ValueError"
  using assms by (simp add: apply_psf_def jnp_array_def jnp_transpose_120_def ndim_def)

theorem apply_psf_no_channel_witness:
  "apply_psf \<lparr>shape = [2, 2, 0], elems = [] :: int list\<rparr>
     \<lparr>shape = [1, 1], elems = [1]\<rparr> = Inl ValueError"
  using apply_psf_no_channel [of "\<lparr>shape = [2, 2, 0], elems = [] :: int list\<rparr>" 2 2]
  by simp

subsection \<open>The shape of the result\<close>

lemma wf_psf_spec: "shape D = [X, Y, C] \<Longrightarrow> wf_array (psf_spec D K)"
  by (simp add: wf_array_def asize_def psf_spec_def length_mk3)

lemma at3_psf_spec:
  assumes "shape D = [X, Y, C]" "x < X" "y < Y" "c < C"
  shows "at3 (psf_spec D K) x y c = same_conv_at (plane_of D c) K x y"
proof -
  have "at3 (psf_spec D K) x y c
      = mk3 X Y C (\<lambda>x y c. same_conv_at (plane_of D c) K x y) ! ((x * Y + y) * C + c)"
    using assms(1) by (simp add: at3_def psf_spec_def)
  also have "\<dots> = same_conv_at (plane_of D c) K x y"
    using assms(2-4) by (rule nth_mk3)
  finally show ?thesis .
qed

lemma plane_of_psf_spec:
  assumes shD: "shape D = [X, Y, C]" and c: "c < C"
  shows "plane_of (psf_spec D K) c =
     \<lparr>shape = [X, Y], elems = mk2 X Y (same_conv_at (plane_of D c) K)\<rparr>"
proof -
  have "mk2 X Y (\<lambda>x y. at3 (psf_spec D K) x y c) = mk2 X Y (same_conv_at (plane_of D c) K)"
    by (rule mk2_cong) (simp add: at3_psf_spec [OF shD _ _ c])
  then show ?thesis using shD by (simp add: plane_of_def psf_spec_def)
qed

text \<open>
  C1, as amended: for every datacube of shape \<open>(X, Y, C)\<close> with \<open>X\<close>, \<open>Y\<close> and \<open>C\<close> at
  least 1, and every kernel of two axes that is not empty and is no larger than a plane
  in both axes, or no smaller than a plane in both axes, \<open>apply_psf\<close> returns a datacube
  of shape exactly \<open>(X, Y, C)\<close>.
\<close>

theorem apply_psf_shape:
  fixes D K :: "'a::comm_semiring_0 ndarray"
  assumes "wf_array D" and "shape D = [X, Y, C]" and "0 < C"
      and "wf_array K" and "shape K = [h, w]" and "conv_shapes_ok X Y h w"
  shows "\<exists>R. apply_psf D K = Inr R \<and> shape R = [X, Y, C] \<and> wf_array R"
proof -
  have "apply_psf D K = Inr (psf_spec D K)"
    using assms(3,6) by (simp add: apply_psf_eq [OF assms(2,4,5)])
  moreover have "shape (psf_spec D K) = [X, Y, C]" using assms(2) by (simp add: psf_spec_def)
  moreover have "wf_array (psf_spec D K)" using assms(2) by (rule wf_psf_spec)
  ultimately show ?thesis by blast
qed

theorem apply_psf_shape_witness:
  "\<exists>R. apply_psf \<lparr>shape = [1, 1, 2], elems = [7, 8 :: int]\<rparr>
          \<lparr>shape = [2, 3], elems = [1, 2, 3, 4, 5, 6]\<rparr> = Inr R
       \<and> shape R = [1, 1, 2] \<and> wf_array R"
  using apply_psf_shape [of "\<lparr>shape = [1, 1, 2], elems = [7, 8 :: int]\<rparr>" 1 1 2
          "\<lparr>shape = [2, 3], elems = [1, 2, 3, 4, 5, 6]\<rparr>" 2 3]
  by (simp add: wf_array_def asize_def conv_shapes_ok_def)

text \<open>
  C1 as stated, for every kernel of two axes, fails: on a plane of \<open>1 \<times> 2\<close> pixels a
  kernel of \<open>2 \<times> 1\<close> entries is larger in one axis and smaller in the other, the library
  refuses the pair, and \<open>apply_psf\<close> raises ValueError instead of returning a datacube.
\<close>

theorem apply_psf_shape_counterexample:
  "wf_array \<lparr>shape = [1, 2, 1], elems = [1, 2 :: int]\<rparr>
   \<and> wf_array \<lparr>shape = [2, 1], elems = [1, 1 :: int]\<rparr>
   \<and> apply_psf \<lparr>shape = [1, 2, 1], elems = [1, 2 :: int]\<rparr> \<lparr>shape = [2, 1], elems = [1, 1]\<rparr>
       = Inl ValueError"
  by code_simp

subsection \<open>The identity kernel\<close>

lemma at2_plane_of:
  assumes shD: "shape D = [X, Y, C]" and xy: "x < X" "y < Y"
  shows "at2 (plane_of D c) (int x) (int y) = at3 D x y c"
proof -
  have "at2 (plane_of D c) (int x) (int y) = mk2 X Y (\<lambda>x y. at3 D x y c) ! (x * Y + y)"
    using shD xy by (simp add: at2_def plane_of_def)
  also have "\<dots> = at3 D x y c" using xy by (rule nth_mk2)
  finally show ?thesis .
qed

lemma at2_identity_kernel:
  assumes "a < h" "b < w"
  shows "at2 (identity_kernel h w) (int a) (int b)
       = (if a = h div 2 \<and> b = w div 2 then 1 else 0)"
proof -
  have "at2 (identity_kernel h w) (int a) (int b)
      = mk2 h w (\<lambda>a b. if a = h div 2 \<and> b = w div 2 then 1 else 0) ! (a * w + b)"
    using assms by (simp add: at2_def identity_kernel_def)
  also have "\<dots> = (if a = h div 2 \<and> b = w div 2 then 1 else 0)"
    using assms by (rule nth_mk2)
  finally show ?thesis .
qed

lemma odd_half: "odd h \<Longrightarrow> (h - 1) div 2 = h div (2::nat)"
  by (elim oddE) simp

lemma same_conv_identity:
  fixes P :: "'a::comm_semiring_1 ndarray"
  assumes h: "odd h" and w: "odd w"
  shows "same_conv_at P (identity_kernel h w) i j = at2 P (int i) (int j)"
proof -
  define ch where "ch = h div 2"
  define cw where "cw = w div 2"
  have ch: "ch < h" using h by (cases h) (simp_all add: ch_def)
  have cw: "cw < w" using w by (cases w) (simp_all add: cw_def)
  have al: "(h - 1) div 2 = ch" "(w - 1) div 2 = cw"
    using odd_half [OF h] odd_half [OF w] by (simp_all only: ch_def cw_def)
  have sh: "shape (identity_kernel h w :: 'a ndarray) = [h, w]" by (simp add: identity_kernel_def)
  have "same_conv_at P (identity_kernel h w) i j
      = (\<Sum>a<h. \<Sum>b<w. at2 P (int i + int ch - int a) (int j + int cw - int b)
            * at2 (identity_kernel h w) (int a) (int b))"
    using same_conv_at_eq [OF sh, of P i j] by (simp only: al)
  also have "\<dots> = (\<Sum>a<h. \<Sum>b<w. if a = ch \<and> b = cw
            then at2 P (int i + int ch - int a) (int j + int cw - int b) else 0)"
    by (intro sum.cong refl) (simp add: at2_identity_kernel ch_def cw_def)
  also have "\<dots> = (\<Sum>a<h. if a = ch then (\<Sum>b<w. if b = cw
            then at2 P (int i + int ch - int a) (int j + int cw - int b) else 0) else 0)"
    by (intro sum.cong refl) simp
  also have "\<dots> = (\<Sum>b<w. if b = cw then at2 P (int i) (int j + int cw - int b) else 0)"
    using ch by (simp add: sum.delta)
  also have "\<dots> = at2 P (int i) (int j)"
    using cw by (simp add: sum.delta)
  finally show ?thesis .
qed

lemma psf_spec_identity:
  fixes D :: "'a::comm_semiring_1 ndarray"
  assumes wfD: "wf_array D" and shD: "shape D = [X, Y, C]" and h: "odd h" and w: "odd w"
  shows "psf_spec D (identity_kernel h w) = D"
proof -
  have len: "length (elems D) = X * Y * C" using wfD shD by (simp add: wf_array_def asize_def)
  have "mk3 X Y C (\<lambda>x y c. same_conv_at (plane_of D c) (identity_kernel h w) x y)
      = mk3 X Y C (\<lambda>x y c. elems D ! ((x * Y + y) * C + c))"
  proof (rule mk3_cong)
    fix x y c assume xyc: "x < X" "y < Y" "c < C"
    have "same_conv_at (plane_of D c) (identity_kernel h w) x y = at2 (plane_of D c) (int x) (int y)"
      using h w by (rule same_conv_identity)
    also have "\<dots> = at3 D x y c" using shD xyc(1,2) by (rule at2_plane_of)
    also have "\<dots> = elems D ! ((x * Y + y) * C + c)" using shD by (simp add: at3_def)
    finally show "same_conv_at (plane_of D c) (identity_kernel h w) x y = elems D ! ((x * Y + y) * C + c)" .
  qed
  also have "\<dots> = elems D" using len by (rule mk3_nth_id)
  finally show ?thesis using shD by (simp add: psf_spec_def)
qed

text \<open>
  C5, as amended: for a datacube of shape \<open>(X, Y, C)\<close> with \<open>X\<close>, \<open>Y\<close> and \<open>C\<close> at least
  1 and the degenerate kernel of odd height and odd width, all zero but for a single 1
  at its centre, where the kernel is no larger than a plane in both axes, or no smaller
  than a plane in both axes, \<open>apply_psf\<close> returns the datacube unchanged.
\<close>

theorem apply_psf_identity_kernel:
  fixes D :: "'a::comm_semiring_1 ndarray"
  assumes "wf_array D" and "shape D = [X, Y, C]" and "0 < C" and "conv_shapes_ok X Y h w"
      and "odd h" and "odd w"
  shows "apply_psf D (identity_kernel h w) = Inr D"
proof -
  have wfK: "wf_array (identity_kernel h w :: 'a ndarray)"
    by (simp add: wf_array_def asize_def identity_kernel_def length_mk2)
  have shK: "shape (identity_kernel h w :: 'a ndarray) = [h, w]" by (simp add: identity_kernel_def)
  have "apply_psf D (identity_kernel h w) = Inr (psf_spec D (identity_kernel h w))"
    using assms(3,4) by (simp add: apply_psf_eq [OF assms(2) wfK shK])
  then show ?thesis by (simp only: psf_spec_identity [OF assms(1,2,5,6)])
qed

theorem apply_psf_identity_kernel_witness:
  "identity_kernel 1 3 = \<lparr>shape = [1, 3], elems = [0, 1, 0 :: int]\<rparr>
   \<and> apply_psf \<lparr>shape = [2, 3, 2], elems = [1, 10, 2, 20, 3, 30, 4, 40, 5, 50, 6, 60 :: int]\<rparr>
        (identity_kernel 1 3)
     = Inr \<lparr>shape = [2, 3, 2], elems = [1, 10, 2, 20, 3, 30, 4, 40, 5, 50, 6, 60]\<rparr>"
proof -
  have k: "identity_kernel 1 3 = \<lparr>shape = [1, 3], elems = [0, 1, 0 :: int]\<rparr>"
    by code_simp
  have a: "wf_array \<lparr>shape = [2, 3, 2], elems = [1, 10, 2, 20, 3, 30, 4, 40, 5, 50, 6, 60 :: int]\<rparr>"
    by (simp add: wf_array_def asize_def)
  have c: "conv_shapes_ok 2 3 1 3" by (simp add: conv_shapes_ok_def)
  have "apply_psf \<lparr>shape = [2, 3, 2], elems = [1, 10, 2, 20, 3, 30, 4, 40, 5, 50, 6, 60 :: int]\<rparr>
        (identity_kernel 1 3)
     = Inr \<lparr>shape = [2, 3, 2], elems = [1, 10, 2, 20, 3, 30, 4, 40, 5, 50, 6, 60]\<rparr>"
    by (rule apply_psf_identity_kernel [OF a _ _ c, where C = 2]) simp_all
  then show ?thesis using k by simp
qed

text \<open>
  C5 as stated, for any datacube and any such kernel, fails twice. With an even kernel
  the planes are shifted: the 1 of the \<open>2 \<times> 2\<close> kernel is at row 1 and column 1, the
  library aligns row 0 and column 0 with the output pixel, and the datacube
  \<open>[[1, 2], [3, 4]]\<close> comes back as \<open>[[0, 0], [0, 1]]\<close>. And the kernel of \<open>3 \<times> 1\<close>
  entries on planes of \<open>1 \<times> 2\<close> pixels is refused by the library: ValueError.
\<close>

theorem apply_psf_identity_kernel_counterexample:
  "identity_kernel 2 2 = \<lparr>shape = [2, 2], elems = [0, 0, 0, 1 :: int]\<rparr>
   \<and> apply_psf \<lparr>shape = [2, 2, 1], elems = [1, 2, 3, 4 :: int]\<rparr> (identity_kernel 2 2)
       = Inr \<lparr>shape = [2, 2, 1], elems = [0, 0, 0, 1]\<rparr>
   \<and> identity_kernel 3 1 = \<lparr>shape = [3, 1], elems = [0, 1, 0 :: int]\<rparr>
   \<and> apply_psf \<lparr>shape = [1, 2, 1], elems = [1, 2 :: int]\<rparr> (identity_kernel 3 1)
       = Inl ValueError"
  by code_simp

subsection \<open>Channels\<close>

lemma index_axis2_psf_spec:
  assumes shD: "shape D = [X, Y, C]" and c: "c < C"
  shows "index_axis2 (psf_spec D K) c =
     \<lparr>shape = [X, Y], elems = mk2 X Y (same_conv_at (index_axis2 D c) K)\<rparr>"
proof -
  have "shape (psf_spec D K) = [X, Y, C]" using shD by (simp add: psf_spec_def)
  then have "index_axis2 (psf_spec D K) c = plane_of (psf_spec D K) c"
    by (rule index_axis2_plane)
  then show ?thesis
    by (simp only: plane_of_psf_spec [OF shD c] index_axis2_plane [OF shD])
qed

text \<open>
  C7: channels do not interfere. When two datacubes of the same shape have the same
  plane at channel \<open>c\<close> and \<open>apply_psf\<close> returns on the first with a kernel, it returns
  on the second with that kernel, and the two results have the same plane at channel
  \<open>c\<close>: that plane is what convolving the input plane \<open>c\<close> alone with the kernel gives,
  and the kernel is the same for every channel.
\<close>

theorem apply_psf_channels_independent:
  fixes D1 D2 K :: "'a::comm_semiring_0 ndarray"
  assumes "shape D1 = [X, Y, C]" and "shape D2 = [X, Y, C]"
      and "wf_array K" and "shape K = [h, w]"
      and "c < C" and "index_axis2 D1 c = index_axis2 D2 c"
      and "apply_psf D1 K = Inr R1"
  shows "\<exists>R2. apply_psf D2 K = Inr R2
            \<and> index_axis2 R2 c = index_axis2 R1 c
            \<and> convolve_plane (index_axis2 D1 c) K = Inr (index_axis2 R1 c)"
proof -
  have e1: "apply_psf D1 K = (if 0 < C \<and> conv_shapes_ok X Y h w then Inr (psf_spec D1 K) else Inl ValueError)"
    using assms(1,3,4) by (rule apply_psf_eq)
  have e2: "apply_psf D2 K = (if 0 < C \<and> conv_shapes_ok X Y h w then Inr (psf_spec D2 K) else Inl ValueError)"
    using assms(2,3,4) by (rule apply_psf_eq)
  have ok: "conv_shapes_ok X Y h w" and R1: "R1 = psf_spec D1 K"
    using e1 assms(7) by (simp_all split: if_splits)
  have r2: "apply_psf D2 K = Inr (psf_spec D2 K)" using e2 ok assms(5) by simp
  have p1: "index_axis2 R1 c = \<lparr>shape = [X, Y], elems = mk2 X Y (same_conv_at (index_axis2 D1 c) K)\<rparr>"
    unfolding R1 using assms(1,5) by (rule index_axis2_psf_spec)
  have p2: "index_axis2 (psf_spec D2 K) c = \<lparr>shape = [X, Y], elems = mk2 X Y (same_conv_at (index_axis2 D2 c) K)\<rparr>"
    using assms(2,5) by (rule index_axis2_psf_spec)
  have cp: "convolve_plane (index_axis2 D1 c) K = Inr (index_axis2 R1 c)"
    unfolding p1 index_axis2_plane [OF assms(1)]
    using convolve_plane_ok [OF assms(1,3,4) ok, of c] by (simp only: index_axis2_plane [OF assms(1)])
  show ?thesis using r2 p1 p2 cp assms(6) by simp
qed

theorem apply_psf_channels_independent_witness:
  "index_axis2 \<lparr>shape = [1, 2, 2], elems = [1, 10, 2, 20 :: int]\<rparr> 0
     = index_axis2 \<lparr>shape = [1, 2, 2], elems = [1, 77, 2, 88 :: int]\<rparr> 0
   \<and> apply_psf \<lparr>shape = [1, 2, 2], elems = [1, 10, 2, 20 :: int]\<rparr> \<lparr>shape = [1, 2], elems = [1, 3]\<rparr>
     = Inr \<lparr>shape = [1, 2, 2], elems = [1, 10, 5, 50]\<rparr>
   \<and> (\<exists>R2. apply_psf \<lparr>shape = [1, 2, 2], elems = [1, 77, 2, 88 :: int]\<rparr> \<lparr>shape = [1, 2], elems = [1, 3]\<rparr>
              = Inr R2
          \<and> index_axis2 R2 0 = index_axis2 \<lparr>shape = [1, 2, 2], elems = [1, 10, 5, 50]\<rparr> 0
          \<and> convolve_plane (index_axis2 \<lparr>shape = [1, 2, 2], elems = [1, 10, 2, 20 :: int]\<rparr> 0)
               \<lparr>shape = [1, 2], elems = [1, 3]\<rparr>
             = Inr (index_axis2 \<lparr>shape = [1, 2, 2], elems = [1, 10, 5, 50]\<rparr> 0))"
proof -
  have s: "index_axis2 \<lparr>shape = [1, 2, 2], elems = [1, 10, 2, 20 :: int]\<rparr> 0
     = index_axis2 \<lparr>shape = [1, 2, 2], elems = [1, 77, 2, 88 :: int]\<rparr> 0"
    by code_simp
  have r: "apply_psf \<lparr>shape = [1, 2, 2], elems = [1, 10, 2, 20 :: int]\<rparr> \<lparr>shape = [1, 2], elems = [1, 3]\<rparr>
     = Inr \<lparr>shape = [1, 2, 2], elems = [1, 10, 5, 50]\<rparr>"
    by code_simp
  have k: "wf_array \<lparr>shape = [1, 2], elems = [1, 3 :: int]\<rparr>" by (simp add: wf_array_def asize_def)
  show ?thesis
    using apply_psf_channels_independent [OF _ _ k _ _ s r, of 1 2 2 1 2] s r by simp
qed

subsection \<open>Linearity\<close>

lemma map2_map_same: "map2 f (map g xs) (map h xs) = map (\<lambda>x. f (g x) (h x)) xs"
  by (induction xs) simp_all

lemma mk3_map2:
  "mk3 X Y C (\<lambda>x y c. f (g x y c) (h x y c)) = map2 f (mk3 X Y C g) (mk3 X Y C h)"
  by (simp add: mk3_def map2_map_same)

lemma at2_plane_of_gen:
  assumes shD: "shape D = [X, Y, C]"
  shows "at2 (plane_of D c) p q =
     (if 0 \<le> p \<and> p < int X \<and> 0 \<le> q \<and> q < int Y then at3 D (nat p) (nat q) c else 0)"
proof (cases "0 \<le> p \<and> p < int X \<and> 0 \<le> q \<and> q < int Y")
  case True
  then have xy: "nat p < X" "nat q < Y" by (simp_all add: nat_less_iff)
  have "at2 (plane_of D c) (int (nat p)) (int (nat q)) = at3 D (nat p) (nat q) c"
    using shD xy by (rule at2_plane_of)
  then show ?thesis using True by simp
next
  case False
  then have "at2 (plane_of D c) p q = 0"
    using shD by (auto simp add: at2_def plane_of_def)
  then show ?thesis by (simp only: False if_False)
qed

lemma at3_lincomb:
  fixes A B :: "'a::semiring_0 ndarray"
  assumes wfA: "wf_array A" and wfB: "wf_array B"
      and shA: "shape A = [X, Y, C]" and shB: "shape B = [X, Y, C]"
      and xyc: "x < X" "y < Y" "c < C"
  shows "at3 (lincomb a A b B) x y c = a * at3 A x y c + b * at3 B x y c"
proof -
  have lA: "length (elems A) = X * Y * C" using wfA shA by (simp add: wf_array_def asize_def)
  have lB: "length (elems B) = X * Y * C" using wfB shB by (simp add: wf_array_def asize_def)
  have n: "(x * Y + y) * C + c < X * Y * C" using xyc by (rule idx3_less)
  show ?thesis using n lA lB shA shB by (simp add: at3_def lincomb_def)
qed

lemma same_conv_lincomb:
  fixes A B K :: "'a::comm_semiring_0 ndarray"
  assumes wfA: "wf_array A" and wfB: "wf_array B"
      and shA: "shape A = [X, Y, C]" and shB: "shape B = [X, Y, C]"
      and shK: "shape K = [h, w]" and c: "c < C"
  shows "same_conv_at (plane_of (lincomb a A b B) c) K i j
       = a * same_conv_at (plane_of A c) K i j + b * same_conv_at (plane_of B c) K i j"
proof -
  have shL: "shape (lincomb a A b B) = [X, Y, C]" using shA by (simp add: lincomb_def)
  have pt: "at2 (plane_of (lincomb a A b B) c) p q
      = a * at2 (plane_of A c) p q + b * at2 (plane_of B c) p q" for p q
  proof (cases "0 \<le> p \<and> p < int X \<and> 0 \<le> q \<and> q < int Y")
    case True
    then have xy: "nat p < X" "nat q < Y" by (simp_all add: nat_less_iff)
    show ?thesis
      using True at3_lincomb [OF wfA wfB shA shB xy c, of a b]
      by (simp add: at2_plane_of_gen [OF shL] at2_plane_of_gen [OF shA] at2_plane_of_gen [OF shB])
  next
    case False
    show ?thesis
      by (simp only: at2_plane_of_gen [OF shL] at2_plane_of_gen [OF shA] at2_plane_of_gen [OF shB]
            False if_False mult_zero_right add_0_left)
  qed
  have "(\<Sum>a'<h. \<Sum>b'<w. (a * u a' b' + b * v a' b') * k a' b')
      = a * (\<Sum>a'<h. \<Sum>b'<w. u a' b' * k a' b') + b * (\<Sum>a'<h. \<Sum>b'<w. v a' b' * k a' b')"
    for u v k :: "nat \<Rightarrow> nat \<Rightarrow> 'a"
    by (simp add: sum_distrib_left sum.distrib distrib_right mult.assoc)
  then show ?thesis
    by (simp only: same_conv_at_eq [OF shK] pt)
qed

lemma psf_spec_lincomb:
  fixes A B K :: "'a::comm_semiring_0 ndarray"
  assumes wfA: "wf_array A" and wfB: "wf_array B"
      and shA: "shape A = [X, Y, C]" and shB: "shape B = [X, Y, C]"
      and shK: "shape K = [h, w]"
  shows "psf_spec (lincomb a A b B) K = lincomb a (psf_spec A K) b (psf_spec B K)"
proof -
  have "mk3 X Y C (\<lambda>x y c. same_conv_at (plane_of (lincomb a A b B) c) K x y)
      = mk3 X Y C (\<lambda>x y c. a * same_conv_at (plane_of A c) K x y + b * same_conv_at (plane_of B c) K x y)"
    by (rule mk3_cong) (rule same_conv_lincomb [OF wfA wfB shA shB shK])
  also have "\<dots> = map2 (\<lambda>u v. a * u + b * v)
       (mk3 X Y C (\<lambda>x y c. same_conv_at (plane_of A c) K x y))
       (mk3 X Y C (\<lambda>x y c. same_conv_at (plane_of B c) K x y))"
    by (rule mk3_map2)
  finally show ?thesis using shA shB by (simp add: psf_spec_def lincomb_def)
qed

text \<open>
  C10: \<open>apply_psf\<close> is linear in the datacube. For datacubes \<open>A\<close> and \<open>B\<close> of the same
  shape, scalars \<open>a\<close> and \<open>b\<close> and a kernel \<open>K\<close>, \<open>apply_psf (a * A + b * B) K\<close> is
  \<open>a * apply_psf A K + b * apply_psf B K\<close> over exact arithmetic (any commutative
  semiring, the reals among them); where the calls raise, both sides raise the same
  exception.
\<close>

theorem apply_psf_linear:
  fixes A B K :: "'a::comm_semiring_0 ndarray"
  assumes "wf_array A" and "wf_array B"
      and "shape A = [X, Y, C]" and "shape B = [X, Y, C]"
      and "wf_array K" and "shape K = [h, w]"
  shows "apply_psf (lincomb a A b B) K = lincomb_result a (apply_psf A K) b (apply_psf B K)"
proof -
  have shL: "shape (lincomb a A b B) = [X, Y, C]" using assms(3) by (simp add: lincomb_def)
  show ?thesis
    by (simp add: apply_psf_eq [OF shL assms(5,6)] apply_psf_eq [OF assms(3,5,6)]
          apply_psf_eq [OF assms(4,5,6)] lincomb_result_def
          psf_spec_lincomb [OF assms(1-4,6)])
qed

theorem apply_psf_linear_witness:
  "lincomb 2 \<lparr>shape = [1, 2, 1], elems = [1, 2 :: int]\<rparr> 3 \<lparr>shape = [1, 2, 1], elems = [10, 20]\<rparr>
     = \<lparr>shape = [1, 2, 1], elems = [32, 64]\<rparr>
   \<and> apply_psf \<lparr>shape = [1, 2, 1], elems = [1, 2 :: int]\<rparr> \<lparr>shape = [1, 2], elems = [1, 3]\<rparr>
     = Inr \<lparr>shape = [1, 2, 1], elems = [1, 5]\<rparr>
   \<and> apply_psf \<lparr>shape = [1, 2, 1], elems = [10, 20 :: int]\<rparr> \<lparr>shape = [1, 2], elems = [1, 3]\<rparr>
     = Inr \<lparr>shape = [1, 2, 1], elems = [10, 50]\<rparr>
   \<and> apply_psf \<lparr>shape = [1, 2, 1], elems = [32, 64 :: int]\<rparr> \<lparr>shape = [1, 2], elems = [1, 3]\<rparr>
     = Inr \<lparr>shape = [1, 2, 1], elems = [32, 160]\<rparr>"
proof -
  have l: "lincomb 2 \<lparr>shape = [1, 2, 1], elems = [1, 2 :: int]\<rparr> 3 \<lparr>shape = [1, 2, 1], elems = [10, 20]\<rparr>
     = \<lparr>shape = [1, 2, 1], elems = [32, 64]\<rparr>"
    by (simp add: lincomb_def)
  have ra: "apply_psf \<lparr>shape = [1, 2, 1], elems = [1, 2 :: int]\<rparr> \<lparr>shape = [1, 2], elems = [1, 3]\<rparr>
     = Inr \<lparr>shape = [1, 2, 1], elems = [1, 5]\<rparr>"
    by code_simp
  have rb: "apply_psf \<lparr>shape = [1, 2, 1], elems = [10, 20 :: int]\<rparr> \<lparr>shape = [1, 2], elems = [1, 3]\<rparr>
     = Inr \<lparr>shape = [1, 2, 1], elems = [10, 50]\<rparr>"
    by code_simp
  have w: "wf_array \<lparr>shape = [1, 2, 1], elems = [1, 2 :: int]\<rparr>"
      "wf_array \<lparr>shape = [1, 2, 1], elems = [10, 20 :: int]\<rparr>"
      "wf_array \<lparr>shape = [1, 2], elems = [1, 3 :: int]\<rparr>"
    by (simp_all add: wf_array_def asize_def)
  have "apply_psf (lincomb 2 \<lparr>shape = [1, 2, 1], elems = [1, 2 :: int]\<rparr> 3 \<lparr>shape = [1, 2, 1], elems = [10, 20]\<rparr>)
          \<lparr>shape = [1, 2], elems = [1, 3]\<rparr>
      = lincomb_result 2 (apply_psf \<lparr>shape = [1, 2, 1], elems = [1, 2 :: int]\<rparr> \<lparr>shape = [1, 2], elems = [1, 3]\<rparr>)
          3 (apply_psf \<lparr>shape = [1, 2, 1], elems = [10, 20 :: int]\<rparr> \<lparr>shape = [1, 2], elems = [1, 3]\<rparr>)"
    by (rule apply_psf_linear [OF w(1,2) _ _ w(3)]) simp_all
  then show ?thesis unfolding l ra rb by (simp add: l ra rb lincomb_result_def lincomb_def)
qed

subsection \<open>The program on a store: purity and failures\<close>

lemma convolve_planes_st_sim:
  assumes "d < length H" "k < length H" "convolve_planes_st H d k js = (res, H')"
  shows "(\<exists>ext. H' = H @ ext) \<and>
     (case res of
        Inl e \<Rightarrow> collect (map (\<lambda>i. convolve_plane (index_axis2 (H ! d) i) (H ! k)) js) = Inl e
      | Inr qs \<Rightarrow>
          collect (map (\<lambda>i. convolve_plane (index_axis2 (H ! d) i) (H ! k)) js)
            = Inr (map (\<lambda>q. H' ! q) qs)
          \<and> (\<forall>q\<in>set qs. length H \<le> q \<and> q < length H'))"
  using assms
proof (induction js arbitrary: H res H')
  case Nil
  then show ?case by auto
next
  case (Cons i js)
  define P where "P = index_axis2 (H ! d) i"
  define H1 where "H1 = H @ [P]"
  have al: "alloc H P = (length H, H1)" by (simp add: alloc_def H1_def)
  have r1: "H1 ! length H = P" "H1 ! k = H ! k" "H1 ! d = H ! d"
    using Cons.prems(1,2) by (simp_all add: H1_def nth_append)
  show ?case
  proof (cases "convolve_plane P (H ! k)")
    case (Inl e)
    then have "res = Inl e" "H' = H1"
      using Cons.prems(3) by (simp_all add: al r1 P_def [symmetric])
    then show ?thesis using Inl by (simp add: H1_def P_def)
  next
    case (Inr c)
    define H2 where "H2 = H1 @ [c]"
    have al2: "alloc H1 c = (length H1, H2)" by (simp add: alloc_def H2_def)
    obtain res2 H3 where rec: "convolve_planes_st H2 d k js = (res2, H3)" by fastforce
    have d2: "d < length H2" "k < length H2" using Cons.prems(1,2) by (simp_all add: H2_def H1_def)
    have r2: "H2 ! d = H ! d" "H2 ! k = H ! k"
      using Cons.prems(1,2) by (simp_all add: H2_def H1_def nth_append)
    have ih: "(\<exists>ext. H3 = H2 @ ext) \<and>
       (case res2 of
          Inl e \<Rightarrow> collect (map (\<lambda>i. convolve_plane (index_axis2 (H ! d) i) (H ! k)) js) = Inl e
        | Inr qs \<Rightarrow>
            collect (map (\<lambda>i. convolve_plane (index_axis2 (H ! d) i) (H ! k)) js)
              = Inr (map (\<lambda>q. H3 ! q) qs)
            \<and> (\<forall>q\<in>set qs. length H2 \<le> q \<and> q < length H3))"
      using Cons.IH [OF d2 rec] by (simp only: r2)
    then obtain ext where ext: "H3 = H2 @ ext" by blast
    have h3: "H3 = H @ (P # c # ext)" by (simp add: ext H2_def H1_def)
    have c3: "H3 ! length H1 = c" by (simp add: ext H2_def nth_append)
    have step: "convolve_planes_st H d k (i # js) =
        (case res2 of Inl e \<Rightarrow> (Inl e, H3) | Inr qs \<Rightarrow> (Inr (length H1 # qs), H3))"
      using Inr rec by (simp add: al al2 r1 P_def [symmetric])
    show ?thesis
    proof (cases res2)
      case (Inl e)
      then have "res = Inl e" "H' = H3" using step Cons.prems(3) by simp_all
      then show ?thesis using ih Inl Inr h3 by (simp add: P_def [symmetric])
    next
      case (Inr qs)
      then have "res = Inr (length H1 # qs)" "H' = H3" using step Cons.prems(3) by simp_all
      moreover have "length H \<le> length H1" "length H1 < length H3"
        by (simp_all add: H1_def h3)
      moreover have "\<forall>q\<in>set qs. length H \<le> q \<and> q < length H3"
        using ih Inr by (auto simp add: H2_def H1_def)
      ultimately show ?thesis
        using ih Inr \<open>convolve_plane P (H ! k) = Inr c\<close> h3 c3
        by (simp add: P_def [symmetric])
    qed
  qed
qed


lemma apply_psf_st_eager:
  "ndim (H ! datacube) < 3 \<Longrightarrow> apply_psf_st H datacube psf_kernel = (Inl IndexError, H)"
  by (simp add: apply_psf_st_def ndim_def)

lemma apply_psf_few_axes: "ndim D < 3 \<Longrightarrow> apply_psf D K = Inl IndexError"
  by (simp add: apply_psf_def ndim_def)

text \<open>
  C6: \<open>apply_psf\<close> is pure. Run on a store, it leaves every array that was there as
  it was, the datacube and the kernel among them; what it returns is a cell that did not
  exist before, and holds the value the pure function computes.
\<close>

theorem apply_psf_pure:
  assumes d: "datacube < length H" and k: "psf_kernel < length H"
      and run: "apply_psf_st H datacube psf_kernel = (res, H')"
  shows "take (length H) H' = H
       \<and> H' ! datacube = H ! datacube \<and> H' ! psf_kernel = H ! psf_kernel
       \<and> (case res of
            Inl e \<Rightarrow> apply_psf (H ! datacube) (H ! psf_kernel) = Inl e
          | Inr r \<Rightarrow> length H \<le> r \<and> r < length H'
                     \<and> apply_psf (H ! datacube) (H ! psf_kernel) = Inr (H' ! r))"
proof -
  define D where "D = H ! datacube"
  define K where "K = H ! psf_kernel"
  have frame: "take (length H) (H @ ext) = H \<and> (H @ ext) ! datacube = H ! datacube
      \<and> (H @ ext) ! psf_kernel = H ! psf_kernel" for ext
    using d k by (simp add: nth_append)
  show ?thesis
  proof (cases "length (shape D) \<le> 2")
    case True
    then have "res = Inl IndexError" "H' = H"
      using run by (simp_all add: apply_psf_st_def D_def)
    then show ?thesis using True by (simp add: apply_psf_def D_def)
  next
    case False
    obtain res1 H1 where r1: "convolve_planes_st H datacube psf_kernel [0..<shape D ! 2] = (res1, H1)"
      by fastforce
    have sim: "(\<exists>ext. H1 = H @ ext) \<and>
       (case res1 of
          Inl e \<Rightarrow> collect (map (\<lambda>i. convolve_plane (index_axis2 D i) K) [0..<shape D ! 2]) = Inl e
        | Inr qs \<Rightarrow>
            collect (map (\<lambda>i. convolve_plane (index_axis2 D i) K) [0..<shape D ! 2])
              = Inr (map (\<lambda>q. H1 ! q) qs)
            \<and> (\<forall>q\<in>set qs. length H \<le> q \<and> q < length H1))"
      unfolding D_def K_def using d k r1 [unfolded D_def] by (rule convolve_planes_st_sim)
    then obtain ext where ext: "H1 = H @ ext" by blast
    have step: "apply_psf_st H datacube psf_kernel = (case res1 of
          Inl e \<Rightarrow> (Inl e, H1)
        | Inr qs \<Rightarrow>
            (case jnp_array (map (\<lambda>q. H1 ! q) qs) of
               Inl e \<Rightarrow> (Inl e, H1)
             | Inr stacked \<Rightarrow>
                 (case jnp_transpose_120 stacked of
                    Inl e \<Rightarrow> (Inl e, H1 @ [stacked])
                  | Inr permuted \<Rightarrow> (Inr (Suc (length H1)), H1 @ [stacked, permuted]))))"
      using False
      by (simp add: apply_psf_st_def D_def [symmetric] r1 alloc_def split: sum.split)
    note run' = run [unfolded step]
    have pure: "apply_psf D K =
        (case collect (map (\<lambda>i. convolve_plane (index_axis2 D i) K) [0..<shape D ! 2]) of
           Inl e \<Rightarrow> Inl e
         | Inr planes \<Rightarrow>
             (case jnp_array planes of Inl e \<Rightarrow> Inl e | Inr convolved \<Rightarrow> jnp_transpose_120 convolved))"
      using False by (simp add: apply_psf_def)
    show ?thesis
    proof (cases res1)
      case (Inl e)
      then have "res = Inl e" "H' = H @ ext" using run' ext by simp_all
      then show ?thesis using sim Inl pure frame [of ext] by (simp add: D_def K_def)
    next
      case (Inr qs)
      note qs = this
      have col: "collect (map (\<lambda>i. convolve_plane (index_axis2 D i) K) [0..<shape D ! 2])
          = Inr (map (\<lambda>q. H1 ! q) qs)"
        using sim qs by simp
      show ?thesis
      proof (cases "jnp_array (map (\<lambda>q. H1 ! q) qs)")
        case (Inl e)
        then have "res = Inl e" "H' = H @ ext" using run' ext qs by simp_all
        then show ?thesis using col Inl pure frame [of ext] by (simp add: D_def K_def)
      next
        case (Inr stacked)
        note st = this
        show ?thesis
        proof (cases "jnp_transpose_120 stacked")
          case (Inl e)
          then have "res = Inl e" "H' = H @ (ext @ [stacked])" using run' ext qs st by simp_all
          then show ?thesis
            using col st Inl pure frame [of "ext @ [stacked]"] by (simp add: D_def K_def)
        next
          case (Inr permuted)
          then have "res = Inr (Suc (length H1))" "H' = H @ (ext @ [stacked, permuted])"
            using run' ext qs st by simp_all
          moreover have "(H @ (ext @ [stacked, permuted])) ! Suc (length H1) = permuted"
            by (simp add: ext nth_append)
          ultimately show ?thesis
            using col st Inr pure frame [of "ext @ [stacked, permuted]"] ext
            by (simp add: D_def K_def)
        qed
      qed
    qed
  qed
qed



theorem apply_psf_pure_witness:
  "apply_psf_st [\<lparr>shape = [1, 2, 1], elems = [1, 2 :: int]\<rparr>, \<lparr>shape = [1, 2], elems = [1, 3]\<rparr>] 0 1
     = (Inr 5, [\<lparr>shape = [1, 2, 1], elems = [1, 2]\<rparr>, \<lparr>shape = [1, 2], elems = [1, 3]\<rparr>,
                \<lparr>shape = [1, 2], elems = [1, 2]\<rparr>, \<lparr>shape = [1, 2], elems = [1, 5]\<rparr>,
                \<lparr>shape = [1, 1, 2], elems = [1, 5]\<rparr>, \<lparr>shape = [1, 2, 1], elems = [1, 5]\<rparr>])
   \<and> apply_psf \<lparr>shape = [1, 2, 1], elems = [1, 2 :: int]\<rparr> \<lparr>shape = [1, 2], elems = [1, 3]\<rparr>
     = Inr \<lparr>shape = [1, 2, 1], elems = [1, 5]\<rparr>"
proof -
  have run: "apply_psf_st [\<lparr>shape = [1, 2, 1], elems = [1, 2 :: int]\<rparr>, \<lparr>shape = [1, 2], elems = [1, 3]\<rparr>] 0 1
     = (Inr 5, [\<lparr>shape = [1, 2, 1], elems = [1, 2]\<rparr>, \<lparr>shape = [1, 2], elems = [1, 3]\<rparr>,
                \<lparr>shape = [1, 2], elems = [1, 2]\<rparr>, \<lparr>shape = [1, 2], elems = [1, 5]\<rparr>,
                \<lparr>shape = [1, 1, 2], elems = [1, 5]\<rparr>, \<lparr>shape = [1, 2, 1], elems = [1, 5]\<rparr>])"
    by code_simp
  show ?thesis
    using apply_psf_pure [OF _ _ run] run by simp
qed

text \<open>
  C3, as amended: \<open>apply_psf\<close> fails whenever the datacube has fewer than three axes,
  with the IndexError of reading the third entry of its shape; that happens at the
  start, before any plane is sliced or convolved, so the store is as it was. On a
  datacube of three axes and a kernel of two axes it fails with the library's ValueError
  whenever the kernel is larger than a plane in one axis and smaller in the other. A
  kernel at least as large as a plane in both axes is accepted when the datacube has at
  least one channel and its planes are not empty: \<open>apply_psf\<close> returns the convolved
  datacube.
\<close>

theorem apply_psf_failure_modes:
  fixes D K :: "'a::comm_semiring_0 ndarray" and H :: "'a store"
  shows "(ndim D < 3 \<longrightarrow> apply_psf D K = Inl IndexError)
       \<and> (ndim (H ! datacube) < 3 \<longrightarrow>
            apply_psf_st H datacube psf_kernel = (Inl IndexError, H))
       \<and> (shape D = [X, Y, C] \<and> shape K = [h, w]
            \<and> ((X < h \<and> w < Y) \<or> (h < X \<and> Y < w)) \<longrightarrow>
            apply_psf D K = Inl ValueError)
       \<and> (shape D = [X, Y, C] \<and> 0 < X \<and> 0 < Y \<and> 0 < C
            \<and> wf_array K \<and> shape K = [h, w] \<and> X \<le> h \<and> Y \<le> w \<longrightarrow>
            apply_psf D K = Inr (psf_spec D K))"
proof (intro conjI impI)
  assume "ndim D < 3"
  then show "apply_psf D K = Inl IndexError" by (rule apply_psf_few_axes)
next
  assume "ndim (H ! datacube) < 3"
  then show "apply_psf_st H datacube psf_kernel = (Inl IndexError, H)"
    by (rule apply_psf_st_eager)
next
  assume a: "shape D = [X, Y, C] \<and> shape K = [h, w]
            \<and> ((X < h \<and> w < Y) \<or> (h < X \<and> Y < w))"
  then have "\<not> conv_shapes_ok X Y h w" by (auto simp add: conv_shapes_ok_def)
  with a show "apply_psf D K = Inl ValueError" by (intro apply_psf_refused) simp_all
next
  assume a: "shape D = [X, Y, C] \<and> 0 < X \<and> 0 < Y \<and> 0 < C
            \<and> wf_array K \<and> shape K = [h, w] \<and> X \<le> h \<and> Y \<le> w"
  then have ok: "conv_shapes_ok X Y h w" by (auto simp add: conv_shapes_ok_def)
  have "apply_psf D K =
      (if 0 < C \<and> conv_shapes_ok X Y h w then Inr (psf_spec D K) else Inl ValueError)"
    using a by (intro apply_psf_eq) simp_all
  then show "apply_psf D K = Inr (psf_spec D K)" using a ok by simp
qed

theorem apply_psf_failure_modes_witness:
  "apply_psf \<lparr>shape = [2, 2], elems = [1, 2, 3, 4 :: int]\<rparr> \<lparr>shape = [1, 1], elems = [1]\<rparr>
     = Inl IndexError
   \<and> apply_psf_st [\<lparr>shape = [2, 2], elems = [1, 2, 3, 4 :: int]\<rparr>, \<lparr>shape = [1, 1], elems = [1]\<rparr>] 0 1
     = (Inl IndexError, [\<lparr>shape = [2, 2], elems = [1, 2, 3, 4]\<rparr>, \<lparr>shape = [1, 1], elems = [1]\<rparr>])
   \<and> apply_psf \<lparr>shape = [3, 1, 1], elems = [1, 2, 3 :: int]\<rparr> \<lparr>shape = [1, 3], elems = [1, 1, 1]\<rparr>
     = Inl ValueError
   \<and> apply_psf \<lparr>shape = [1, 2, 1], elems = [1, 2 :: int]\<rparr> \<lparr>shape = [1, 3], elems = [1, 10, 100]\<rparr>
     = Inr (psf_spec \<lparr>shape = [1, 2, 1], elems = [1, 2]\<rparr> \<lparr>shape = [1, 3], elems = [1, 10, 100]\<rparr>)
   \<and> psf_spec \<lparr>shape = [1, 2, 1], elems = [1, 2 :: int]\<rparr> \<lparr>shape = [1, 3], elems = [1, 10, 100]\<rparr>
     = \<lparr>shape = [1, 2, 1], elems = [12, 120]\<rparr>"
proof -
  have v: "psf_spec \<lparr>shape = [1, 2, 1], elems = [1, 2 :: int]\<rparr> \<lparr>shape = [1, 3], elems = [1, 10, 100]\<rparr>
     = \<lparr>shape = [1, 2, 1], elems = [12, 120]\<rparr>"
    by code_simp
  show ?thesis
    using apply_psf_failure_modes [where D = "\<lparr>shape = [2, 2], elems = [1, 2, 3, 4 :: int]\<rparr>"
            and K = "\<lparr>shape = [1, 1], elems = [1]\<rparr>"
            and H = "[\<lparr>shape = [2, 2], elems = [1, 2, 3, 4 :: int]\<rparr>, \<lparr>shape = [1, 1], elems = [1]\<rparr>]"
            and datacube = 0 and psf_kernel = 1]
          apply_psf_failure_modes [where D = "\<lparr>shape = [3, 1, 1], elems = [1, 2, 3 :: int]\<rparr>"
            and K = "\<lparr>shape = [1, 3], elems = [1, 1, 1]\<rparr>"
            and X = 3 and Y = 1 and C = 1 and h = 1 and w = 3]
          apply_psf_failure_modes [where D = "\<lparr>shape = [1, 2, 1], elems = [1, 2 :: int]\<rparr>"
            and K = "\<lparr>shape = [1, 3], elems = [1, 10, 100]\<rparr>"
            and X = 1 and Y = 2 and C = 1 and h = 1 and w = 3]
          v
    by (simp add: ndim_def wf_array_def asize_def)
qed

text \<open>
  C3 as stated fails: a kernel of \<open>2 \<times> 2\<close> entries has more extent than a plane of
  \<open>1 \<times> 1\<close> pixel in both axes, and \<open>apply_psf\<close> returns a datacube; the library swaps
  the operands when the kernel covers the plane.
\<close>

theorem apply_psf_failure_modes_counterexample:
  "wf_array \<lparr>shape = [1, 1, 1], elems = [7 :: int]\<rparr>
   \<and> wf_array \<lparr>shape = [2, 2], elems = [1, 2, 3, 4 :: int]\<rparr>
   \<and> apply_psf \<lparr>shape = [1, 1, 1], elems = [7 :: int]\<rparr> \<lparr>shape = [2, 2], elems = [1, 2, 3, 4]\<rparr>
     = Inr \<lparr>shape = [1, 1, 1], elems = [7]\<rparr>"
  by code_simp

section \<open>The kernel builder of the specification\<close>

lemma sum_list_pos_real:
  fixes xs :: "real list"
  assumes "xs \<noteq> []" and "\<And>x. x \<in> set xs \<Longrightarrow> 0 < x"
  shows "0 < sum_list xs"
proof (cases xs)
  case Nil
  then show ?thesis using assms(1) by simp
next
  case (Cons y ys)
  have "0 < y" using assms(2) Cons by simp
  moreover have "0 \<le> sum_list ys"
    by (rule sum_list_nonneg) (use assms(2) Cons in \<open>simp add: less_imp_le\<close>)
  ultimately show ?thesis using Cons by simp
qed

lemma sum_list_divide_real:
  fixes xs :: "real list"
  shows "sum_list (map (\<lambda>g. g / c) xs) = sum_list xs / c"
  by (induction xs) (simp_all add: add_divide_distrib)

lemma gaussian_density_pos: "0 < spread \<Longrightarrow> 0 < gaussian_density spread ci cj i j"
  by (simp add: gaussian_density_def)

lemma set_mk2: "x \<in> set (mk2 X Y f) \<Longrightarrow> \<exists>i j. x = f i j"
  by (auto simp add: mk2_def)

text \<open>
  C4: for a height and a width of at least 1 and a positive spread, the kernel builder
  returns a matrix of that height and width whose entries are not negative and sum to 1:
  exactly over the reals, so within any tolerance; at \<open>(20, 20, 3.5)\<close> in particular.
\<close>

theorem gaussian_kernel_normalised:
  assumes "1 \<le> h" and "1 \<le> w" and "0 < spread"
  shows "\<exists>K. gaussian_kernel_2d (real h) (real w) spread = Inr K
           \<and> shape K = [h, w] \<and> wf_array K
           \<and> (\<forall>e\<in>set (elems K). 0 \<le> e)
           \<and> sum_list (elems K) = 1
           \<and> \<bar>sum_list (elems K) - 1\<bar> < 1 / 10 ^ 6"
proof -
  define grid where
    "grid = mk2 h w (\<lambda>i j. gaussian_density spread (real h / 2) (real w / 2) (real i) (real j))"
  define total where "total = sum_list grid"
  define K where "K = \<lparr>shape = [h, w], elems = map (\<lambda>g. g / total) grid\<rparr>"
  have len: "length grid = h * w" by (simp add: grid_def length_mk2)
  have ne: "grid \<noteq> []" using len assms(1,2) by (cases grid) auto
  have pos: "0 < g" if "g \<in> set grid" for g
    using that assms(3) unfolding grid_def by (auto dest!: set_mk2 intro: gaussian_density_pos)
  have total: "0 < total" unfolding total_def using ne pos by (rule sum_list_pos_real)
  have run: "gaussian_kernel_2d (real h) (real w) spread = Inr K"
    using assms
    by (simp add: gaussian_kernel_2d_def K_def grid_def total_def Let_def)
  have nonneg: "\<forall>e\<in>set (elems K). 0 \<le> e"
    using pos total by (auto simp add: K_def less_imp_le)
  have one: "sum_list (elems K) = 1"
    using total by (simp add: K_def sum_list_divide_real total_def [symmetric])
  have "wf_array K" by (simp add: wf_array_def asize_def K_def len)
  moreover have "shape K = [h, w]" by (simp add: K_def)
  ultimately show ?thesis using run nonneg one by simp
qed

theorem gaussian_kernel_normalised_witness:
  "\<exists>K. gaussian_kernel_2d 20 20 (7 / 2) = Inr K
     \<and> shape K = [20, 20] \<and> wf_array K
     \<and> (\<forall>e\<in>set (elems K). 0 \<le> e)
     \<and> sum_list (elems K) = 1
     \<and> \<bar>sum_list (elems K) - 1\<bar> < 1 / 10 ^ 6"
  using gaussian_kernel_normalised [of 20 20 "7 / 2"] by simp

text \<open>
  C8: the kernel builder fails with \<open>InvalidParameter\<close> when the height or the width
  is not positive or not an integer, or when the spread is not positive; the check is
  the first thing it does. \<open>(0, 20, 3.5)\<close> is refused.
\<close>

theorem gaussian_kernel_invalid:
  assumes "height \<le> 0 \<or> width \<le> 0 \<or> height \<notin> \<int> \<or> width \<notin> \<int> \<or> spread \<le> 0"
  shows "gaussian_kernel_2d height width spread = Inl InvalidParameter"
proof -
  have "of_int \<lfloor>x\<rfloor> \<noteq> x" if "x \<notin> \<int>" for x :: real
    using that by (metis Ints_of_int)
  then show ?thesis using assms by (auto simp add: gaussian_kernel_2d_def)
qed

theorem gaussian_kernel_invalid_witness:
  "gaussian_kernel_2d 0 20 (7 / 2) = Inl InvalidParameter
   \<and> gaussian_kernel_2d (41 / 2) 20 (7 / 2) = Inl InvalidParameter
   \<and> gaussian_kernel_2d 20 20 0 = Inl InvalidParameter"
proof -
  have "(41 / 2 :: real) \<notin> \<int>"
  proof
    assume "(41 / 2 :: real) \<in> \<int>"
    then obtain n :: int where "(41 / 2 :: real) = of_int n" by (auto elim: Ints_cases)
    then have "(41 :: real) = of_int (2 * n)" by simp
    then have "(41 :: int) = 2 * n" using of_int_eq_iff [where ?'a = real, of 41 "2 * n"] by simp
    then show False by presburger
  qed
  then show ?thesis
    using gaussian_kernel_invalid [of 0 20 "7 / 2"] gaussian_kernel_invalid [of "41 / 2" 20 "7 / 2"]
      gaussian_kernel_invalid [of 20 20 0]
    by simp
qed

end
